theory Spec2Isabelle
  imports Main "HOL-Library.Sublist" "HOL-Library.AList"
begin

section \<open>Python strings\<close>

text \<open>
  A Python \<open>str\<close> is a sequence of code points. The embedding covers the code points
  below 256, one \<open>char\<close> each; the character classes below are those of CPython's
  \<open>str\<close> methods on that range.
\<close>

definition isspace :: "char \<Rightarrow> bool" where
  \<comment> \<open>\<open>str.isspace\<close>: the characters that \<open>str.strip()\<close> removes\<close>
  "isspace c = (let n = (of_char c :: nat) in
     (9 \<le> n \<and> n \<le> 13) \<or> (28 \<le> n \<and> n \<le> 32) \<or> n = 133 \<or> n = 160)"

definition strip :: "string \<Rightarrow> string" where
  \<comment> \<open>\<open>s.strip()\<close>\<close>
  "strip s = rev (dropWhile isspace (rev (dropWhile isspace s)))"

definition lower_char :: "char \<Rightarrow> char" where
  "lower_char c = (let n = (of_char c :: nat) in
     if (65 \<le> n \<and> n \<le> 90) \<or> (192 \<le> n \<and> n \<le> 222 \<and> n \<noteq> 215)
     then char_of (n + 32) else c)"

definition lower :: "string \<Rightarrow> string" where
  \<comment> \<open>\<open>s.lower()\<close>\<close>
  "lower s = map lower_char s"

definition remove_char :: "char \<Rightarrow> string \<Rightarrow> string" where
  \<comment> \<open>\<open>s.replace(c, "")\<close> for a one-character \<open>c\<close>\<close>
  "remove_char c s = filter (\<lambda>x. x \<noteq> c) s"

fun replace_first :: "string \<Rightarrow> string \<Rightarrow> string \<Rightarrow> string" where
  \<comment> \<open>\<open>s.replace(old, new, 1)\<close>\<close>
  "replace_first old new [] = (if old = [] then new else [])"
| "replace_first old new (c # cs) =
     (if prefix old (c # cs) then new @ drop (length old) (c # cs)
      else c # replace_first old new cs)"

definition is_linebreak :: "char \<Rightarrow> bool" where
  \<comment> \<open>the line boundaries of \<open>str.splitlines\<close>\<close>
  "is_linebreak c = (let n = (of_char c :: nat) in
     (10 \<le> n \<and> n \<le> 13) \<or> (28 \<le> n \<and> n \<le> 30) \<or> n = 133)"

fun split_acc :: "string \<Rightarrow> string \<Rightarrow> string list" where
  \<comment> \<open>the second argument is the current line, reversed\<close>
  "split_acc [] cur = (if cur = [] then [] else [rev cur])"
| "split_acc (c # cs) cur =
     (if is_linebreak c
      then rev cur # (case cs of
             d # ds \<Rightarrow> if c = CHR 0x0D \<and> d = CHR 0x0A then split_acc ds [] else split_acc cs []
           | [] \<Rightarrow> split_acc cs [])
      else split_acc cs (c # cur))"

definition splitlines :: "string \<Rightarrow> string list" where
  \<comment> \<open>\<open>s.splitlines()\<close>\<close>
  "splitlines s = split_acc s []"

definition digit_char :: "nat \<Rightarrow> char" where
  "digit_char n = char_of (48 + n)"

function str_nat :: "nat \<Rightarrow> string" where
  \<comment> \<open>\<open>str(n)\<close> for a non-negative integer\<close>
  "str_nat n = (if n < 10 then [digit_char n] else str_nat (n div 10) @ [digit_char (n mod 10)])"
  by pat_completeness auto
termination
  by (relation "measure id") auto

declare str_nat.simps [simp del]

section \<open>Exceptions\<close>

text \<open>Exception values carry their class only; the messages are not modelled.\<close>

datatype exn =
    ValueError
  | KeyError
  | IndexError
  | OverflowError
  | CsvError
  | ServiceError string

section \<open>datetime\<close>

record datetime =
  year :: int
  month :: int
  day :: int
  hour :: int
  minute :: int
  second :: int
  microsecond :: int

definition dt_tuple :: "datetime \<Rightarrow> int list" where
  "dt_tuple t = [year t, month t, day t, hour t, minute t, second t, microsecond t]"

fun tuple_gt :: "int list \<Rightarrow> int list \<Rightarrow> bool" where
  "tuple_gt (x # xs) (y # ys) = (x > y \<or> (x = y \<and> tuple_gt xs ys))"
| "tuple_gt (x # xs) [] = True"
| "tuple_gt [] ys = False"

definition dt_gt :: "datetime \<Rightarrow> datetime \<Rightarrow> bool" where
  \<comment> \<open>\<open>a > b\<close> on naive datetimes: comparison of the field tuples\<close>
  "dt_gt a b = tuple_gt (dt_tuple a) (dt_tuple b)"

definition is_leap :: "int \<Rightarrow> bool" where
  "is_leap y = (y mod 4 = 0 \<and> (y mod 100 \<noteq> 0 \<or> y mod 400 = 0))"

definition DAYS_IN_MONTH :: "int list" where
  "DAYS_IN_MONTH = [0, 31, 28, 31, 30, 31, 30, 31, 31, 30, 31, 30, 31]"

definition DAYS_BEFORE_MONTH :: "int list" where
  "DAYS_BEFORE_MONTH = [0, 0, 31, 59, 90, 120, 151, 181, 212, 243, 273, 304, 334]"

definition days_in_month :: "int \<Rightarrow> int \<Rightarrow> int" where
  \<comment> \<open>called with \<open>1 \<le> m \<le> 12\<close> only\<close>
  "days_in_month y m = (if m = 2 \<and> is_leap y then 29 else DAYS_IN_MONTH ! nat m)"

definition days_before_year :: "int \<Rightarrow> int" where
  "days_before_year y = (let z = y - 1 in z * 365 + z div 4 - z div 100 + z div 400)"

definition days_before_month :: "int \<Rightarrow> int \<Rightarrow> int" where
  "days_before_month y m = DAYS_BEFORE_MONTH ! nat m + (if m > 2 \<and> is_leap y then 1 else 0)"

definition ymd2ord :: "int \<Rightarrow> int \<Rightarrow> int \<Rightarrow> int" where
  "ymd2ord y m d = days_before_year y + days_before_month y m + d"

definition ord2ymd :: "int \<Rightarrow> int \<times> int \<times> int" where
  "ord2ymd n0 =
    (let n = n0 - 1;
         n400 = n div 146097; n = n mod 146097;
         y = n400 * 400 + 1;
         n100 = n div 36524; n = n mod 36524;
         n4 = n div 1461; n = n mod 1461;
         n1 = n div 365; n = n mod 365;
         y = y + n100 * 100 + n4 * 4 + n1
     in if n1 = 4 \<or> n100 = 4 then (y - 1, 12, 31)
        else
          let leapyear = (n1 = 3 \<and> (n4 \<noteq> 24 \<or> n100 = 3));
              m = (n + 50) div 32;
              preceding = DAYS_BEFORE_MONTH ! nat m + (if m > 2 \<and> leapyear then 1 else 0)
          in if preceding > n
             then (let m' = m - 1;
                       preceding' = preceding -
                         (DAYS_IN_MONTH ! nat m' + (if m' = 2 \<and> leapyear then 1 else 0))
                   in (y, m', n - preceding' + 1))
             else (y, m, n - preceding + 1))"

definition MAXORDINAL :: int where
  "MAXORDINAL = 3652059"

definition sub_days :: "datetime \<Rightarrow> int \<Rightarrow> exn + datetime" where
  \<comment> \<open>\<open>t - timedelta(days=k)\<close>: the time of day is kept, the date moves by ordinal\<close>
  "sub_days t k =
    (let days = ymd2ord (year t) (month t) (day t) - k
     in if 0 < days \<and> days \<le> MAXORDINAL
        then (case ord2ymd days of (y, m, d) \<Rightarrow> Inr (t\<lparr>year := y, month := m, day := d\<rparr>))
        else Inl OverflowError)"

section \<open>strptime on the directives of DATE_FORMATS\<close>

text \<open>
  \<open>datetime.strptime\<close> compiles the format to a regular expression, takes the first
  match of a prefix of the input (alternatives in order, with backtracking), rejects
  unconverted trailing data and then builds the date, which validates the fields.
  The embedding covers the directives \<open>%Y\<close>, \<open>%m\<close>, \<open>%d\<close> and the literals
  \<open>-\<close> and \<open>/\<close>; any other format is outside it and yields no items.
\<close>

datatype directive = Dir_Y | Dir_m | Dir_d | Lit char

fun format_items :: "string \<Rightarrow> directive list option" where
  "format_items [] = Some []"
| "format_items (c # cs) =
    (if c = CHR ''%'' then
       (case cs of
          [] \<Rightarrow> None
        | d # ds \<Rightarrow>
            (case format_items ds of
               None \<Rightarrow> None
             | Some r \<Rightarrow>
                 if d = CHR ''Y'' then Some (Dir_Y # r)
                 else if d = CHR ''m'' then Some (Dir_m # r)
                 else if d = CHR ''d'' then Some (Dir_d # r)
                 else None))
     else if c = CHR ''-'' \<or> c = CHR ''/'' then
       (case format_items cs of None \<Rightarrow> None | Some r \<Rightarrow> Some (Lit c # r))
     else None)"

definition in_range :: "nat \<Rightarrow> nat \<Rightarrow> char \<Rightarrow> bool" where
  \<comment> \<open>a character class \<open>[a-b]\<close> of digits, given by digit values\<close>
  "in_range a b c = (let n = (of_char c :: nat) in 48 + a \<le> n \<and> n \<le> 48 + b)"

fun seq_match :: "(char \<Rightarrow> bool) list \<Rightarrow> string \<Rightarrow> string option" where
  \<comment> \<open>match one character per class; the result is the unmatched rest\<close>
  "seq_match [] s = Some s"
| "seq_match (p # ps) [] = None"
| "seq_match (p # ps) (c # cs) = (if p c then seq_match ps cs else None)"

definition alt :: "(char \<Rightarrow> bool) list \<Rightarrow> string \<Rightarrow> (string \<times> string) list" where
  \<comment> \<open>one alternative: the matched text and the rest, if it matches\<close>
  "alt ps s = (case seq_match ps s of None \<Rightarrow> [] | Some r \<Rightarrow> [(take (length ps) s, r)])"

fun alts :: "directive \<Rightarrow> string \<Rightarrow> (string \<times> string) list" where
  \<comment> \<open>the alternatives of a directive's pattern, in the order the regex tries them\<close>
  "alts Dir_Y s = alt [in_range 0 9, in_range 0 9, in_range 0 9, in_range 0 9] s"
| "alts Dir_m s =
     alt [in_range 1 1, in_range 0 2] s @ alt [in_range 0 0, in_range 1 9] s @ alt [in_range 1 9] s"
| "alts Dir_d s =
     alt [in_range 3 3, in_range 0 1] s @ alt [in_range 1 2, in_range 0 9] s @
     alt [in_range 0 0, in_range 1 9] s @ alt [in_range 1 9] s @
     alt [\<lambda>c. c = CHR '' '', in_range 1 9] s"
| "alts (Lit c) s = alt [\<lambda>x. x = c] s"

fun re_match :: "directive list \<Rightarrow> string \<Rightarrow> ((directive \<times> string) list \<times> string) list" where
  \<comment> \<open>all matches of a prefix, in backtracking order: the groups and the rest\<close>
  "re_match [] s = [([], s)]"
| "re_match (d # ds) s =
     concat (map (\<lambda>(tok, rest). map (\<lambda>(gs, r). ((d, tok) # gs, r)) (re_match ds rest))
                 (alts d s))"

definition digit_val :: "char \<Rightarrow> int" where
  "digit_val c = int (of_char c) - 48"

definition py_int :: "string \<Rightarrow> int" where
  \<comment> \<open>\<open>int(s)\<close> on a group the regex matched: digits, possibly after one space\<close>
  "py_int s = foldl (\<lambda>a c. 10 * a + digit_val c) 0 (strip s)"

definition group :: "directive \<Rightarrow> int \<Rightarrow> (directive \<times> string) list \<Rightarrow> int" where
  \<comment> \<open>the value of a group, or the default of a directive absent from the format\<close>
  "group d dflt gs = (case map_of gs d of None \<Rightarrow> dflt | Some tok \<Rightarrow> py_int tok)"

definition midnight :: "int \<Rightarrow> int \<Rightarrow> int \<Rightarrow> datetime" where
  "midnight y m d = \<lparr>year = y, month = m, day = d, hour = 0, minute = 0, second = 0,
     microsecond = 0\<rparr>"

definition strptime :: "string \<Rightarrow> string \<Rightarrow> exn + datetime" where
  "strptime data_string fmt =
    (case format_items fmt of
       None \<Rightarrow> Inl ValueError
     | Some items \<Rightarrow>
        (case re_match items data_string of
           [] \<Rightarrow> Inl ValueError
         | (gs, rest) # _ \<Rightarrow>
             if rest \<noteq> [] then Inl ValueError
             else
               let y = group Dir_Y 1900 gs; m = group Dir_m 1 gs; d = group Dir_d 1 gs
               in if 1 \<le> y \<and> y \<le> 9999 \<and> 1 \<le> m \<and> m \<le> 12 \<and> 1 \<le> d \<and> d \<le> days_in_month y m
                  then Inr (midnight y m d)
                  else Inl ValueError))"

section \<open>parse_date\<close>

definition DATE_FORMATS :: "string list" where
  "DATE_FORMATS = [''%Y-%m-%d'', ''%m/%d/%Y'', ''%Y/%m/%d'', ''%d-%m-%Y'']"

fun try_formats :: "string list \<Rightarrow> string \<Rightarrow> exn + datetime" where
  \<comment> \<open>the \<open>for fmt in DATE_FORMATS\<close> loop: any exception of an attempt is swallowed\<close>
  "try_formats [] s = Inl ValueError"
| "try_formats (fmt # fmts) s =
     (case strptime (strip s) fmt of
        Inr t \<Rightarrow> Inr t
      | Inl e \<Rightarrow> try_formats fmts s)"

definition parse_date :: "string \<Rightarrow> exn + datetime" where
  "parse_date s = try_formats DATE_FORMATS s"

section \<open>csv.reader with the default dialect\<close>

text \<open>
  The reader of the \<open>excel\<close> dialect: delimiter comma, quote character \<open>"\<close> doubled
  inside quoted fields, no escape character, not strict. It is a state machine fed one
  character at a time and an end-of-line mark after each line; the escape states cannot
  be entered without an escape character and are left out.
\<close>

datatype parse_state =
  START_RECORD | START_FIELD | IN_FIELD | IN_QUOTED_FIELD | QUOTE_IN_QUOTED_FIELD | EAT_CRNL

record reader =
  state :: parse_state
  rec_fields :: "string list"
  cur_field :: string

definition field_limit :: int where
  "field_limit = 131072"

definition parse_reset :: reader where
  "parse_reset = \<lparr>state = START_RECORD, rec_fields = [], cur_field = []\<rparr>"

definition parse_save_field :: "reader \<Rightarrow> reader" where
  "parse_save_field r = r\<lparr>rec_fields := rec_fields r @ [cur_field r], cur_field := []\<rparr>"

definition parse_add_char :: "reader \<Rightarrow> char \<Rightarrow> exn + reader" where
  "parse_add_char r c =
     (if int (length (cur_field r)) \<ge> field_limit then Inl CsvError
      else Inr (r\<lparr>cur_field := cur_field r @ [c]\<rparr>))"

definition is_crlf :: "char \<Rightarrow> bool" where
  "is_crlf c = (c = CHR 0x0A \<or> c = CHR 0x0D)"

definition set_state :: "parse_state \<Rightarrow> exn + reader \<Rightarrow> exn + reader" where
  "set_state s x = (case x of Inl e \<Rightarrow> Inl e | Inr r \<Rightarrow> Inr (r\<lparr>state := s\<rparr>))"

definition start_field :: "reader \<Rightarrow> char option \<Rightarrow> exn + reader" where
  \<comment> \<open>the case \<open>START_FIELD\<close>; \<open>None\<close> is the end-of-line mark\<close>
  "start_field r c =
    (case c of
       None \<Rightarrow> Inr ((parse_save_field r)\<lparr>state := START_RECORD\<rparr>)
     | Some x \<Rightarrow>
         if is_crlf x then Inr ((parse_save_field r)\<lparr>state := EAT_CRNL\<rparr>)
         else if x = CHR 0x22 then Inr (r\<lparr>state := IN_QUOTED_FIELD\<rparr>)
         else if x = CHR '','' then Inr ((parse_save_field r)\<lparr>state := START_FIELD\<rparr>)
         else set_state IN_FIELD (parse_add_char r x))"

fun parse_process_char :: "reader \<Rightarrow> char option \<Rightarrow> exn + reader" where
  "parse_process_char r c =
    (case state r of
       START_RECORD \<Rightarrow>
         (case c of
            None \<Rightarrow> Inr r
          | Some x \<Rightarrow> if is_crlf x then Inr (r\<lparr>state := EAT_CRNL\<rparr>) else start_field r c)
     | START_FIELD \<Rightarrow> start_field r c
     | IN_FIELD \<Rightarrow>
         (case c of
            None \<Rightarrow> Inr ((parse_save_field r)\<lparr>state := START_RECORD\<rparr>)
          | Some x \<Rightarrow>
              if is_crlf x then Inr ((parse_save_field r)\<lparr>state := EAT_CRNL\<rparr>)
              else if x = CHR '','' then Inr ((parse_save_field r)\<lparr>state := START_FIELD\<rparr>)
              else parse_add_char r x)
     | IN_QUOTED_FIELD \<Rightarrow>
         (case c of
            None \<Rightarrow> Inr r
          | Some x \<Rightarrow>
              if x = CHR 0x22 then Inr (r\<lparr>state := QUOTE_IN_QUOTED_FIELD\<rparr>)
              else parse_add_char r x)
     | QUOTE_IN_QUOTED_FIELD \<Rightarrow>
         (case c of
            None \<Rightarrow> Inr ((parse_save_field r)\<lparr>state := START_RECORD\<rparr>)
          | Some x \<Rightarrow>
              if x = CHR 0x22 then set_state IN_QUOTED_FIELD (parse_add_char r x)
              else if x = CHR '','' then Inr ((parse_save_field r)\<lparr>state := START_FIELD\<rparr>)
              else if is_crlf x then Inr ((parse_save_field r)\<lparr>state := EAT_CRNL\<rparr>)
              else set_state IN_FIELD (parse_add_char r x))
     | EAT_CRNL \<Rightarrow>
         (case c of
            None \<Rightarrow> Inr (r\<lparr>state := START_RECORD\<rparr>)
          | Some x \<Rightarrow> if is_crlf x then Inr r else Inl CsvError))"

fun process_chars :: "reader \<Rightarrow> string \<Rightarrow> exn + reader" where
  "process_chars r [] = Inr r"
| "process_chars r (c # cs) =
     (case parse_process_char r (Some c) of
        Inl e \<Rightarrow> Inl e
      | Inr r' \<Rightarrow> process_chars r' cs)"

definition process_line :: "reader \<Rightarrow> string \<Rightarrow> exn + reader" where
  "process_line r l =
     (case process_chars r l of
        Inl e \<Rightarrow> Inl e
      | Inr r' \<Rightarrow> parse_process_char r' None)"

fun reader_rows :: "reader \<Rightarrow> string list \<Rightarrow> (exn + string list) list" where
  \<comment> \<open>the outcomes of the successive \<open>next(reader)\<close> calls: a record each, or the exception
      that ends the iteration; the first argument is the state within the current record\<close>
  "reader_rows r [] =
     (if cur_field r \<noteq> [] \<or> state r = IN_QUOTED_FIELD then [Inr (rec_fields (parse_save_field r))]
      else [])"
| "reader_rows r (l # ls) =
     (case process_line r l of
        Inl e \<Rightarrow> [Inl e]
      | Inr r' \<Rightarrow>
          if state r' = START_RECORD then Inr (rec_fields r') # reader_rows parse_reset ls
          else reader_rows r' ls)"

definition csv_reader :: "string list \<Rightarrow> (exn + string list) list" where
  "csv_reader lines = reader_rows parse_reset lines"

section \<open>csv.DictReader rows\<close>

text \<open>
  A row is a dict from header to value; a value is a string, or \<open>None\<close> where the record
  is shorter than the header. The surplus fields of a longer record are a list under the
  key \<open>None\<close>, kept here in the field \<open>rest\<close>.
\<close>

record row =
  cells :: "(string \<times> string option) list"
  rest :: "string list option"

definition dict_of :: "('k \<times> 'v) list \<Rightarrow> ('k \<times> 'v) list" where
  \<comment> \<open>\<open>dict(pairs)\<close>: a later pair overwrites the value of an equal key\<close>
  "dict_of kvs = fold (\<lambda>(k, v) d. AList.update k v d) kvs []"

definition make_row :: "string list \<Rightarrow> string list \<Rightarrow> row" where
  "make_row fieldnames rec =
    (let d = dict_of (zip fieldnames (map Some rec));
         lf = length fieldnames; lr = length rec
     in if lf < lr then \<lparr>cells = d, rest = Some (drop lf rec)\<rparr>
        else if lf > lr
        then \<lparr>cells = fold (\<lambda>key d. AList.update key None d) (drop lr fieldnames) d, rest = None\<rparr>
        else \<lparr>cells = d, rest = None\<rparr>)"

definition get_or_empty :: "row \<Rightarrow> string \<Rightarrow> string" where
  \<comment> \<open>\<open>row.get(key) or ""\<close>\<close>
  "get_or_empty r key = (case map_of (cells r) key of Some (Some v) \<Rightarrow> v | _ \<Rightarrow> [])"

definition dict_rows :: "string list \<Rightarrow> (exn + string list) list \<Rightarrow> (exn + row) list" where
  \<comment> \<open>the outcomes of iterating the DictReader over the records after the header:
      empty records are skipped, every other record becomes a row\<close>
  "dict_rows fieldnames recs =
     map (map_sum id (make_row fieldnames)) (filter (\<lambda>x. x \<noteq> Inr []) recs)"

section \<open>Header resolution\<close>

definition normalize_header :: "string \<Rightarrow> string" where
  "normalize_header h = remove_char (CHR ''_'') (remove_char (CHR '' '') (lower (strip h)))"

definition header_map :: "string list \<Rightarrow> (string \<times> string) list" where
  "header_map fieldnames = fold (\<lambda>h d. AList.update (normalize_header h) h d) fieldnames []"

fun first_candidate :: "(string \<times> string) list \<Rightarrow> string list \<Rightarrow> string option" where
  \<comment> \<open>the candidate loops: the first candidate in the map wins\<close>
  "first_candidate hm [] = None"
| "first_candidate hm (cand # cands) =
     (case map_of hm cand of
        Some h \<Rightarrow> Some h
      | None \<Rightarrow> first_candidate hm cands)"

definition find_status_key :: "(string \<times> string) list \<Rightarrow> string option" where
  "find_status_key hm = first_candidate hm [''status'', ''orderstatus'']"

definition find_date_key :: "(string \<times> string) list \<Rightarrow> string option" where
  "find_date_key hm =
     first_candidate hm (map (remove_char (CHR ''_'')) [''orderdate'', ''date'', ''order_date''])"

definition falsy :: "string option \<Rightarrow> bool" where
  \<comment> \<open>\<open>not key\<close> for a key that is \<open>None\<close> or a string\<close>
  "falsy k = (k = None \<or> k = Some [])"

section \<open>The row loop\<close>

record loop_state =
  kept_rows :: "row list"
  total :: nat
  filtered_out :: nat

definition process_row :: "datetime \<Rightarrow> string \<Rightarrow> string \<Rightarrow> row \<Rightarrow> loop_state \<Rightarrow> loop_state" where
  "process_row cutoff status_key date_key r st =
    (let st1 = st\<lparr>total := total st + 1\<rparr>;
         status_raw = lower (strip (get_or_empty r status_key));
         date_raw = strip (get_or_empty r date_key)
     in case parse_date date_raw of
          Inl e \<Rightarrow> st1\<lparr>filtered_out := filtered_out st1 + 1\<rparr>
        | Inr order_dt \<Rightarrow>
            if status_raw \<notin> set [''pending'', ''cancelled''] \<or> dt_gt order_dt cutoff
            then st1\<lparr>kept_rows := kept_rows st1 @ [r]\<rparr>
            else st1\<lparr>filtered_out := filtered_out st1 + 1\<rparr>)"

fun row_loop ::
  "datetime \<Rightarrow> string \<Rightarrow> string \<Rightarrow> (exn + row) list \<Rightarrow> loop_state \<Rightarrow> exn + loop_state" where
  \<comment> \<open>\<open>for row in reader\<close>: an exception of the reader ends the run\<close>
  "row_loop cutoff sk dk [] st = Inr st"
| "row_loop cutoff sk dk (Inl e # rows) st = Inl e"
| "row_loop cutoff sk dk (Inr r # rows) st =
     row_loop cutoff sk dk rows (process_row cutoff sk dk r st)"

definition retained :: "datetime \<Rightarrow> string \<Rightarrow> string \<Rightarrow> row \<Rightarrow> bool" where
  \<comment> \<open>the condition under which the loop body appends the row (lines 73 to 83)\<close>
  "retained cutoff status_key date_key r =
     (case parse_date (strip (get_or_empty r date_key)) of
        Inl e \<Rightarrow> False
      | Inr order_dt \<Rightarrow>
          lower (strip (get_or_empty r status_key)) \<notin> set [''pending'', ''cancelled'']
          \<or> dt_gt order_dt cutoff)"

section \<open>csv.DictWriter\<close>

definition needs_quote :: "char \<Rightarrow> bool" where
  "needs_quote c = (c = CHR '','' \<or> c = CHR 0x22 \<or> c = CHR 0x0D \<or> c = CHR 0x0A)"

definition quote_field :: "string \<Rightarrow> string" where
  \<comment> \<open>one field under \<open>QUOTE_MINIMAL\<close>\<close>
  "quote_field s =
     (if list_ex needs_quote s
      then [CHR 0x22] @ concat (map (\<lambda>c. if c = CHR 0x22 then [c, c] else [c]) s) @ [CHR 0x22]
      else s)"

fun join_fields :: "string list \<Rightarrow> string" where
  "join_fields [] = []"
| "join_fields [f] = f"
| "join_fields (f # g # fs) = f @ [CHR '',''] @ join_fields (g # fs)"

definition join_record :: "string list \<Rightarrow> string" where
  \<comment> \<open>the record before its line terminator; a record of one empty field is written as
      a pair of quotes\<close>
  "join_record fs =
     (let r = join_fields (map quote_field fs)
      in if fs \<noteq> [] \<and> r = [] then [CHR 0x22, CHR 0x22] else r)"

definition writerow :: "string list \<Rightarrow> string" where
  "writerow fs = join_record fs @ [CHR 0x0D, CHR 0x0A]"

definition dict_to_list :: "string list \<Rightarrow> row \<Rightarrow> exn + string list" where
  \<comment> \<open>\<open>extrasaction = "raise"\<close>, \<open>restval = ""\<close>; a \<open>None\<close> value is written as empty\<close>
  "dict_to_list fieldnames r =
     (if rest r \<noteq> None \<or> list_ex (\<lambda>k. k \<notin> set fieldnames) (map fst (cells r))
      then Inl ValueError
      else Inr (map (\<lambda>key. case map_of (cells r) key of
                              Some (Some v) \<Rightarrow> v
                            | _ \<Rightarrow> []) fieldnames))"

definition writeheader :: "string list \<Rightarrow> exn + string" where
  "writeheader fieldnames =
     (case dict_to_list fieldnames
             \<lparr>cells = dict_of (zip fieldnames (map Some fieldnames)), rest = None\<rparr> of
        Inl e \<Rightarrow> Inl e
      | Inr fs \<Rightarrow> Inr (writerow fs))"

fun writerows :: "string list \<Rightarrow> row list \<Rightarrow> exn + string" where
  "writerows fieldnames [] = Inr []"
| "writerows fieldnames (r # rs) =
     (case dict_to_list fieldnames r of
        Inl e \<Rightarrow> Inl e
      | Inr fs \<Rightarrow>
          (case writerows fieldnames rs of
             Inl e \<Rightarrow> Inl e
           | Inr out \<Rightarrow> Inr (writerow fs @ out)))"

section \<open>lambda_handler\<close>

text \<open>
  The surroundings of one invocation: URL-unquoting of the key, the outcome of fetching
  and decoding the object, the outcome of a put, and the clock. The handler returns its
  result or exception together with the puts that succeeded. Diagnostic prints are not
  modelled.
\<close>

record event_record =
  bucket_name :: string
  object_key :: string

record put_request =
  Bucket :: string
  Key :: string
  Body :: string
  ContentType :: string

record env =
  unquote_plus :: "string \<Rightarrow> string"
  get_text :: "string \<Rightarrow> string \<Rightarrow> exn + string"
  put_object :: "put_request \<Rightarrow> exn option"
  now :: datetime

record response =
  statusCode :: int
  body :: string

definition processed_key_of :: "string \<Rightarrow> string" where
  "processed_key_of raw_key = replace_first ''raw/'' ''processed/'' raw_key"

definition summary :: "nat \<Rightarrow> nat \<Rightarrow> string \<Rightarrow> string" where
  "summary kept tot processed_key =
     ''Kept '' @ str_nat kept @ '' of '' @ str_nat tot @ '' rows -> '' @ processed_key"

definition write_output ::
  "env \<Rightarrow> string \<Rightarrow> string \<Rightarrow> string list \<Rightarrow> loop_state \<Rightarrow> (exn + response) \<times> put_request list" where
  \<comment> \<open>lines 89 to 116: serialize, derive the key, put, return the summary\<close>
  "write_output e bucket raw_key fieldnames st =
    (case writeheader fieldnames of
       Inl x \<Rightarrow> (Inl x, [])
     | Inr hdr \<Rightarrow>
        (case writerows fieldnames (kept_rows st) of
           Inl x \<Rightarrow> (Inl x, [])
         | Inr out \<Rightarrow>
            let processed_key = processed_key_of raw_key;
                req = \<lparr>Bucket = bucket, Key = processed_key, Body = hdr @ out,
                       ContentType = ''text/csv; charset=utf-8''\<rparr>
            in (case put_object e req of
                  Some x \<Rightarrow> (Inl x, [])
                | None \<Rightarrow>
                    (Inr \<lparr>statusCode = 200,
                          body = summary (length (kept_rows st)) (total st) processed_key\<rparr>,
                     [req]))))"

definition filter_rows ::
  "env \<Rightarrow> string list \<Rightarrow> (exn + string list) list \<Rightarrow> exn + loop_state" where
  \<comment> \<open>lines 43 to 85: resolve the columns, compute the cutoff, run the row loop\<close>
  "filter_rows e fieldnames recs =
    (let hm = header_map fieldnames;
         status_key = find_status_key hm;
         date_key = find_date_key hm
     in if falsy status_key \<or> falsy date_key then Inl KeyError
        else
          (case sub_days (now e) 30 of
             Inl x \<Rightarrow> Inl x
           | Inr cutoff \<Rightarrow>
               row_loop cutoff (the status_key) (the date_key) (dict_rows fieldnames recs)
                 \<lparr>kept_rows = [], total = 0, filtered_out = 0\<rparr>))"

definition lambda_handler :: "env \<Rightarrow> event_record list \<Rightarrow> (exn + response) \<times> put_request list" where
  "lambda_handler e records =
    (case records of
       [] \<Rightarrow> (Inl IndexError, [])
     | r0 # _ \<Rightarrow>
        let bucket = bucket_name r0;
            raw_key = unquote_plus e (object_key r0)
        in (case get_text e bucket raw_key of
              Inl x \<Rightarrow> (Inl x, [])
            | Inr text \<Rightarrow>
               let lines = splitlines text
               in if lines = [] then (Inr \<lparr>statusCode = 200, body = ''Empty file''\<rparr>, [])
                  else
                    (case csv_reader lines of
                       Inl x # _ \<Rightarrow> (Inl x, [])
                     | [] \<Rightarrow> (Inl KeyError, [])
                     | Inr fieldnames # recs \<Rightarrow>
                        (case filter_rows e fieldnames recs of
                           Inl x \<Rightarrow> (Inl x, [])
                         | Inr st \<Rightarrow> write_output e bucket raw_key fieldnames st))))"

section \<open>An alternative reading of the header normalization\<close>

definition spec_normalize :: "string \<Rightarrow> string" where
  \<comment> \<open>lower-casing and removal of spaces and underscores, with no trimming\<close>
  "spec_normalize h = remove_char (CHR ''_'') (remove_char (CHR '' '') (lower h))"

definition spec_header_map :: "string list \<Rightarrow> (string \<times> string) list" where
  "spec_header_map fieldnames = fold (\<lambda>h d. AList.update (spec_normalize h) h d) fieldnames []"

section \<open>Properties of fields used to relate the writer and the reader\<close>

definition plain :: "char \<Rightarrow> bool" where
  \<comment> \<open>a character the reader adds to an unquoted field\<close>
  "plain c = (c \<noteq> CHR '','' \<and> c \<noteq> CHR 0x22 \<and> \<not> is_crlf c)"

definition fits :: "string \<Rightarrow> bool" where
  \<comment> \<open>a field within the reader's field size limit\<close>
  "fits f = (int (length f) \<le> field_limit)"

definition esc :: "string \<Rightarrow> string" where
  \<comment> \<open>the inside of a quoted field: every quote character doubled\<close>
  "esc f = concat (map (\<lambda>c. if c = CHR 0x22 then [c, c] else [c]) f)"

definition good :: "string \<Rightarrow> bool" where
  \<comment> \<open>a field as the reader yields it from split lines\<close>
  "good f = (fits f \<and> (\<forall>c\<in>set f. \<not> is_linebreak c))"

definition reader_inv :: "reader \<Rightarrow> bool" where
  "reader_inv r = ((\<forall>f\<in>set (rec_fields r). good f) \<and> good (cur_field r))"

section \<open>Sample surroundings\<close>

definition sample_env :: "string \<Rightarrow> env" where
  \<comment> \<open>every object decodes to the given text, every put succeeds, and the clock reads
      midnight of 1 March 2024, so that the cutoff is midnight of 31 January 2024\<close>
  "sample_env text =
     \<lparr>unquote_plus = (\<lambda>k. k), get_text = (\<lambda>b k. Inr text), put_object = (\<lambda>req. None),
      now = midnight 2024 3 1\<rparr>"

definition sample_event :: "event_record list" where
  "sample_event = [\<lparr>bucket_name = ''orders'', object_key = ''raw/2024/jan.csv''\<rparr>]"

definition LF :: string where
  "LF = [CHR 0x0A]"

definition CRLF :: string where
  "CRLF = [CHR 0x0D, CHR 0x0A]"

definition sample_kept :: string where
  "sample_kept =
     ''Status,Date'' @ LF @ ''shipped,2020-01-01'' @ LF @ LF @ ''pending,2024-02-01'' @ LF"

definition sample_orders :: string where
  "sample_orders =
     ''Order_Status,Order Date,Note'' @ LF @ ''Pending,2024-01-31,x'' @ LF @
     ''pending,2024-02-01,y'' @ LF @ LF @ ''shipped,soon,z'' @ LF @ ''shipped,2020-01-01'' @ LF"

definition sample_surplus :: string where
  "sample_surplus = ''Status,Date'' @ LF @ ''shipped,2024-02-15,extra'' @ LF"

definition sample_short :: string where
  "sample_short = ''Status,Date,Note'' @ LF @ ''shipped,2024-02-15'' @ LF"

definition sample_surplus_dropped :: string where
  "sample_surplus_dropped = ''Status,Date'' @ LF @ ''pending,2020-01-01,extra'' @ LF"

section \<open>The date parser\<close>

lemma try_formats_Inr:
  "try_formats fmts s = Inr t \<longleftrightarrow>
     (\<exists>i<length fmts. strptime (strip s) (fmts ! i) = Inr t \<and>
        (\<forall>j<i. isl (strptime (strip s) (fmts ! j))))"
proof (induction fmts)
  case Nil
  then show ?case by simp
next
  case (Cons f fs)
  show ?case
  proof (cases "strptime (strip s) f")
    case (Inl e)
    have "(\<exists>i<length (f # fs). strptime (strip s) ((f # fs) ! i) = Inr t \<and>
             (\<forall>j<i. isl (strptime (strip s) ((f # fs) ! j))))
          \<longleftrightarrow> (\<exists>i<length fs. strptime (strip s) (fs ! i) = Inr t \<and>
             (\<forall>j<i. isl (strptime (strip s) (fs ! j))))" (is "?L \<longleftrightarrow> ?R")
    proof
      assume ?L
      then obtain i where i: "i < length (f # fs)" "strptime (strip s) ((f # fs) ! i) = Inr t"
        "\<forall>j<i. isl (strptime (strip s) ((f # fs) ! j))" by blast
      from i(2) Inl obtain k where k: "i = Suc k" by (cases i) auto
      have "\<forall>j<k. isl (strptime (strip s) (fs ! j))"
      proof (intro allI impI)
        fix j assume "j < k"
        then have "Suc j < i" using k by simp
        with i(3) have "isl (strptime (strip s) ((f # fs) ! Suc j))" by blast
        then show "isl (strptime (strip s) (fs ! j))" by simp
      qed
      with i k show ?R by auto
    next
      assume ?R
      then obtain k where k: "k < length fs" "strptime (strip s) (fs ! k) = Inr t"
        "\<forall>j<k. isl (strptime (strip s) (fs ! j))" by blast
      have "\<forall>j<Suc k. isl (strptime (strip s) ((f # fs) ! j))"
      proof (intro allI impI)
        fix j assume "j < Suc k"
        then show "isl (strptime (strip s) ((f # fs) ! j))"
          using k(3) Inl by (cases j) auto
      qed
      with k show ?L by (intro exI[of _ "Suc k"]) simp
    qed
    with Inl Cons.IH show ?thesis by simp
  next
    case (Inr t')
    have "(\<exists>i<length (f # fs). strptime (strip s) ((f # fs) ! i) = Inr t \<and>
             (\<forall>j<i. isl (strptime (strip s) ((f # fs) ! j)))) \<longleftrightarrow> t' = t" (is "?L \<longleftrightarrow> _")
    proof
      assume ?L
      then obtain i where i: "strptime (strip s) ((f # fs) ! i) = Inr t"
        "\<forall>j<i. isl (strptime (strip s) ((f # fs) ! j))" by blast
      have "i = 0"
      proof (rule ccontr)
        assume "i \<noteq> 0"
        then have "isl (strptime (strip s) ((f # fs) ! 0))" using i(2) by blast
        with Inr show False by simp
      qed
      with i(1) Inr show "t' = t" by simp
    next
      assume "t' = t"
      with Inr show ?L by (intro exI[of _ 0]) simp
    qed
    with Inr show ?thesis by simp
  qed
qed

lemma try_formats_Inl:
  "try_formats fmts s = Inl ValueError \<longleftrightarrow> (\<forall>fmt\<in>set fmts. isl (strptime (strip s) fmt))"
  by (induction fmts) (auto split: sum.splits)

lemma try_formats_isl: "isl (try_formats fmts s) \<Longrightarrow> try_formats fmts s = Inl ValueError"
  by (induction fmts) (auto split: sum.splits)

lemma strptime_midnight: "strptime d f = Inr t \<Longrightarrow> t = midnight (year t) (month t) (day t)"
  by (auto simp: strptime_def midnight_def Let_def split: option.splits list.splits if_splits prod.splits)

lemma try_formats_midnight: "try_formats fmts s = Inr t \<Longrightarrow> t = midnight (year t) (month t) (day t)"
  by (induction fmts) (auto split: sum.splits dest: strptime_midnight)

lemma parse_date_examples:
  "parse_date ''2024-01-15'' = Inr (midnight 2024 1 15)"
  "parse_date ''01/15/2024'' = Inr (midnight 2024 1 15)"
  "parse_date ''2024/01/15'' = Inr (midnight 2024 1 15)"
  "parse_date ''15-01-2024'' = Inr (midnight 2024 1 15)"
  "parse_date ''not-a-date'' = Inl ValueError"
  by code_simp+

text \<open>
  Claim C3. \<open>parse_date\<close> trims its argument and tries the formats \<open>%Y-%m-%d\<close>,
  \<open>%m/%d/%Y\<close>, \<open>%Y/%m/%d\<close>, \<open>%d-%m-%Y\<close> in this order. It returns the parse of the first
  format that succeeds, which is midnight of the parsed date, and it fails, with a
  ValueError, exactly when every format fails. The four spellings of 15 January 2024
  parse to the same date and \<open>not-a-date\<close> fails.
\<close>

theorem parse_date_first_format:
  "(parse_date s = Inr t \<longleftrightarrow>
      (\<exists>i<length DATE_FORMATS. strptime (strip s) (DATE_FORMATS ! i) = Inr t \<and>
         (\<forall>j<i. isl (strptime (strip s) (DATE_FORMATS ! j)))))
   \<and> (parse_date s = Inl ValueError \<longleftrightarrow> (\<forall>fmt\<in>set DATE_FORMATS. isl (strptime (strip s) fmt)))
   \<and> (isl (parse_date s) \<longrightarrow> parse_date s = Inl ValueError)
   \<and> (parse_date s = Inr t \<longrightarrow> t = midnight (year t) (month t) (day t))
   \<and> DATE_FORMATS = [''%Y-%m-%d'', ''%m/%d/%Y'', ''%Y/%m/%d'', ''%d-%m-%Y'']
   \<and> parse_date ''2024-01-15'' = Inr (midnight 2024 1 15)
   \<and> parse_date ''01/15/2024'' = Inr (midnight 2024 1 15)
   \<and> parse_date ''2024/01/15'' = Inr (midnight 2024 1 15)
   \<and> parse_date ''15-01-2024'' = Inr (midnight 2024 1 15)
   \<and> parse_date ''not-a-date'' = Inl ValueError"
proof -
  have a: "parse_date s = Inr t \<longleftrightarrow>
      (\<exists>i<length DATE_FORMATS. strptime (strip s) (DATE_FORMATS ! i) = Inr t \<and>
         (\<forall>j<i. isl (strptime (strip s) (DATE_FORMATS ! j))))"
    unfolding parse_date_def by (rule try_formats_Inr)
  have b: "parse_date s = Inl ValueError \<longleftrightarrow>
      (\<forall>fmt\<in>set DATE_FORMATS. isl (strptime (strip s) fmt))"
    unfolding parse_date_def by (rule try_formats_Inl)
  have c: "isl (parse_date s) \<longrightarrow> parse_date s = Inl ValueError"
    unfolding parse_date_def by (simp add: try_formats_isl)
  have d: "parse_date s = Inr t \<longrightarrow> t = midnight (year t) (month t) (day t)"
    unfolding parse_date_def using try_formats_midnight by blast
  have e: "DATE_FORMATS = [''%Y-%m-%d'', ''%m/%d/%Y'', ''%Y/%m/%d'', ''%d-%m-%Y'']"
    by (simp add: DATE_FORMATS_def)
  from a b c d e parse_date_examples show ?thesis by blast
qed

theorem parse_date_first_format_witness:
  "parse_date '' 15-01-2024 '' = Inr (midnight 2024 1 15)
   \<and> (\<exists>i<length DATE_FORMATS.
         strptime (strip '' 15-01-2024 '') (DATE_FORMATS ! i) = Inr (midnight 2024 1 15) \<and>
         (\<forall>j<i. isl (strptime (strip '' 15-01-2024 '') (DATE_FORMATS ! j))))
   \<and> \<not> (\<forall>fmt\<in>set DATE_FORMATS. isl (strptime (strip '' 15-01-2024 '') fmt))"
proof -
  have h: "parse_date '' 15-01-2024 '' = Inr (midnight 2024 1 15)" by code_simp
  from parse_date_first_format [of "'' 15-01-2024 ''" "midnight 2024 1 15"] h
  show ?thesis by simp
qed


section \<open>Header map and resolved keys\<close>

lemma map_of_fold_update:
  "map_of (fold (\<lambda>h d. AList.update (f h) h d) fs d0) n =
     (case filter (\<lambda>h. f h = n) fs of [] \<Rightarrow> map_of d0 n | hs \<Rightarrow> Some (last hs))"
  by (induction fs arbitrary: d0) (auto simp: update_conv' split: list.splits)

lemma map_of_header_map:
  "map_of (header_map fs) n =
     (case filter (\<lambda>h. normalize_header h = n) fs of [] \<Rightarrow> None | hs \<Rightarrow> Some (last hs))"
  unfolding header_map_def by (simp add: map_of_fold_update split: list.splits)

lemma header_map_normalized:
  assumes "map_of (header_map fs) n = Some h"
  shows "h \<in> set fs \<and> normalize_header h = n"
proof -
  let ?hs = "filter (\<lambda>h. normalize_header h = n) fs"
  from assms have ne: "?hs \<noteq> []" and h: "h = last ?hs"
    by (auto simp: map_of_header_map split: list.splits)
  from ne have "last ?hs \<in> set ?hs" by (rule last_in_set)
  with h show ?thesis by simp
qed

lemma first_candidate_Some:
  "first_candidate hm cands = Some h \<Longrightarrow> \<exists>c\<in>set cands. map_of hm c = Some h"
  by (induction cands) (auto split: option.splits)

lemma normalize_header_Nil [simp]: "normalize_header [] = []"
  by (simp add: normalize_header_def remove_char_def lower_def strip_def)

lemma status_key_nonempty: "find_status_key (header_map fs) = Some h \<Longrightarrow> h \<noteq> []"
  unfolding find_status_key_def
  by (drule first_candidate_Some) (auto dest!: header_map_normalized)

lemma status_key_member: "find_status_key (header_map fs) = Some h \<Longrightarrow> h \<in> set fs"
  unfolding find_status_key_def
  by (drule first_candidate_Some) (auto dest!: header_map_normalized)

lemma date_key_nonempty: "find_date_key (header_map fs) = Some h \<Longrightarrow> h \<noteq> []"
  unfolding find_date_key_def
  by (drule first_candidate_Some) (auto dest!: header_map_normalized simp: remove_char_def)

section \<open>The row loop and its counters\<close>

lemma process_row_retained:
  "process_row c sk dk r st =
     (if retained c sk dk r then st\<lparr>total := total st + 1, kept_rows := kept_rows st @ [r]\<rparr>
      else st\<lparr>total := total st + 1, filtered_out := filtered_out st + 1\<rparr>)"
  by (simp add: process_row_def retained_def Let_def split: sum.splits)

lemma row_loop_result:
  "row_loop c sk dk rows st0 = Inr st \<Longrightarrow>
     \<exists>rs. rows = map Inr rs
        \<and> kept_rows st = kept_rows st0 @ filter (retained c sk dk) rs
        \<and> total st = total st0 + length rs
        \<and> filtered_out st = filtered_out st0 + length (filter (\<lambda>r. \<not> retained c sk dk r) rs)"
proof (induction rows arbitrary: st0)
  case Nil
  then show ?case by simp
next
  case (Cons x rows)
  show ?case
  proof (cases x)
    case (Inl e)
    with Cons.prems show ?thesis by simp
  next
    case (Inr r)
    with Cons.prems have "row_loop c sk dk rows (process_row c sk dk r st0) = Inr st" by simp
    from Cons.IH [OF this] obtain rs where rs: "rows = map Inr rs"
      "kept_rows st = kept_rows (process_row c sk dk r st0) @ filter (retained c sk dk) rs"
      "total st = total (process_row c sk dk r st0) + length rs"
      "filtered_out st = filtered_out (process_row c sk dk r st0)
         + length (filter (\<lambda>r. \<not> retained c sk dk r) rs)"
      by blast
    show ?thesis
      by (rule exI [of _ "r # rs"]) (use rs Inr in \<open>simp add: process_row_retained\<close>)
  qed
qed

lemma filter_rows_resolved:
  assumes "find_status_key (header_map fn) = Some sk"
      and "find_date_key (header_map fn) = Some dk"
      and "sub_days (now e) 30 = Inr cutoff"
  shows "filter_rows e fn recs =
           row_loop cutoff sk dk (dict_rows fn recs) \<lparr>kept_rows = [], total = 0, filtered_out = 0\<rparr>"
  using assms status_key_nonempty [OF assms(1)] date_key_nonempty [OF assms(2)]
  by (simp add: filter_rows_def falsy_def)

lemma filter_rows_result:
  assumes "filter_rows e fn recs = Inr st"
      and "find_status_key (header_map fn) = Some sk"
      and "find_date_key (header_map fn) = Some dk"
      and "sub_days (now e) 30 = Inr cutoff"
  shows "\<exists>rs. dict_rows fn recs = map Inr rs
        \<and> kept_rows st = filter (retained cutoff sk dk) rs
        \<and> total st = length rs
        \<and> filtered_out st = length (filter (\<lambda>r. \<not> retained cutoff sk dk r) rs)"
  using row_loop_result [of cutoff sk dk "dict_rows fn recs"
      "\<lparr>kept_rows = [], total = 0, filtered_out = 0\<rparr>" st]
    assms(1) filter_rows_resolved [OF assms(2,3,4), of recs]
  by simp

lemma tuple_gt_irrefl: "\<not> tuple_gt xs xs"
  by (induction xs) auto

lemma dt_gt_irrefl: "\<not> dt_gt t t"
  by (simp add: dt_gt_def tuple_gt_irrefl)

text \<open>
  Claim C1. In a run whose columns resolve, a data row whose date value parses is among
  the kept rows exactly when its trimmed, lower-cased status is neither \<open>pending\<close> nor
  \<open>cancelled\<close>, or its parsed date is strictly after the cutoff, which is the clock
  reading minus 30 days. A pending or cancelled row whose parsed date equals the cutoff
  is not kept.
\<close>

theorem retention_rule:
  assumes "filter_rows e fieldnames recs = Inr st"
      and "find_status_key (header_map fieldnames) = Some sk"
      and "find_date_key (header_map fieldnames) = Some dk"
      and "sub_days (now e) 30 = Inr cutoff"
      and "Inr r \<in> set (dict_rows fieldnames recs)"
      and "parse_date (strip (get_or_empty r dk)) = Inr order_dt"
  shows "(r \<in> set (kept_rows st) \<longleftrightarrow>
            lower (strip (get_or_empty r sk)) \<notin> {''pending'', ''cancelled''}
            \<or> dt_gt order_dt cutoff)
       \<and> (lower (strip (get_or_empty r sk)) \<in> {''pending'', ''cancelled''} \<and> order_dt = cutoff
            \<longrightarrow> r \<notin> set (kept_rows st))"
proof -
  from filter_rows_result [OF assms(1-4)] obtain rs where
    rs: "dict_rows fieldnames recs = map Inr rs" "kept_rows st = filter (retained cutoff sk dk) rs"
    by blast
  from assms(5) rs(1) have "r \<in> set rs" by auto
  with rs(2) have "r \<in> set (kept_rows st) \<longleftrightarrow> retained cutoff sk dk r" by simp
  also have "\<dots> \<longleftrightarrow> lower (strip (get_or_empty r sk)) \<notin> {''pending'', ''cancelled''}
            \<or> dt_gt order_dt cutoff"
    using assms(6) by (simp add: retained_def)
  finally have main: "r \<in> set (kept_rows st) \<longleftrightarrow>
      lower (strip (get_or_empty r sk)) \<notin> {''pending'', ''cancelled''} \<or> dt_gt order_dt cutoff" .
  then show ?thesis using dt_gt_irrefl by blast
qed

theorem retention_rule_witness:
  "filter_rows (sample_env []) [''Status'', ''Date'']
       [Inr [''Pending '', ''2024-01-31''], Inr [''pending'', ''2024-02-01'']]
     = Inr \<lparr>kept_rows = [make_row [''Status'', ''Date''] [''pending'', ''2024-02-01'']],
            total = 2, filtered_out = 1\<rparr>
   \<and> sub_days (now (sample_env [])) 30 = Inr (midnight 2024 1 31)
   \<and> parse_date (strip (get_or_empty (make_row [''Status'', ''Date''] [''Pending '', ''2024-01-31''])
         ''Date'')) = Inr (midnight 2024 1 31)
   \<and> lower (strip (get_or_empty (make_row [''Status'', ''Date''] [''Pending '', ''2024-01-31''])
         ''Status'')) = ''pending''
   \<and> make_row [''Status'', ''Date''] [''Pending '', ''2024-01-31'']
         \<notin> set [make_row [''Status'', ''Date''] [''pending'', ''2024-02-01'']]"
proof -
  let ?e = "sample_env []"
  let ?fn = "[''Status'', ''Date'']"
  let ?recs = "[Inr [''Pending '', ''2024-01-31''], Inr [''pending'', ''2024-02-01'']]"
  let ?r = "make_row ?fn [''Pending '', ''2024-01-31'']"
  let ?st = "\<lparr>kept_rows = [make_row ?fn [''pending'', ''2024-02-01'']], total = 2, filtered_out = 1\<rparr>"
  have h1: "filter_rows ?e ?fn ?recs = Inr ?st" by code_simp
  have h2: "find_status_key (header_map ?fn) = Some ''Status''" by code_simp
  have h3: "find_date_key (header_map ?fn) = Some ''Date''" by code_simp
  have h4: "sub_days (now ?e) 30 = Inr (midnight 2024 1 31)" by code_simp
  have h5: "Inr ?r \<in> set (dict_rows ?fn ?recs)" by (simp add: dict_rows_def)
  have h6: "parse_date (strip (get_or_empty ?r ''Date'')) = Inr (midnight 2024 1 31)" by code_simp
  have h7: "lower (strip (get_or_empty ?r ''Status'')) = ''pending''" by code_simp
  have "?r \<notin> set (kept_rows ?st)"
    using conjunct2 [OF retention_rule [OF h1 h2 h3 h4 h5 h6]] h7 by simp
  with h1 h4 h6 h7 show ?thesis by simp
qed

section \<open>The destination key\<close>

lemma replace_first_absent: "\<not> sublist old s \<Longrightarrow> replace_first old new s = s"
proof (induction s)
  case Nil
  then have "old \<noteq> []" by auto
  then show ?case by simp
next
  case (Cons c cs)
  then show ?case by (simp add: sublist_Cons_right)
qed

lemma replace_first_occurrence:
  assumes "old \<noteq> []"
  shows "\<not> sublist old (p @ butlast old) \<Longrightarrow> replace_first old new (p @ old @ s) = p @ new @ s"
proof (induction p)
  case Nil
  from assms obtain c cs where "old @ s = c # cs" by (cases old) auto
  then show ?case by (metis append_Nil append_eq_conv_conj prefixI replace_first.simps(2))
next
  case (Cons c p)
  have np: "\<not> prefix old (c # p @ old @ s)"
  proof
    assume a: "prefix old (c # p @ old @ s)"
    have b: "prefix ((c # p) @ butlast old) (c # p @ old @ s)"
      using assms by (metis append.assoc append_Cons append_butlast_last_id prefixI)
    have "length old \<le> length ((c # p) @ butlast old)" by simp
    with a b have "prefix old ((c # p) @ butlast old)" by (rule prefix_length_prefix)
    then have "sublist old ((c # p) @ butlast old)" by (rule prefix_imp_sublist)
    with Cons.prems show False by simp
  qed
  from Cons.prems have "\<not> sublist old (p @ butlast old)" by (simp add: sublist_Cons_right)
  with Cons.IH np show ?case by simp
qed

text \<open>
  Claim C4. The destination key is the decoded source key with the first occurrence of
  \<open>raw/\<close> replaced by \<open>processed/\<close>: a key without \<open>raw/\<close> is unchanged, and in
  a key \<open>p @ raw/ @ s\<close> where no occurrence starts inside \<open>p\<close> the replacement happens
  right after \<open>p\<close>. The key \<open>raw/2024/jan.csv\<close> maps to \<open>processed/2024/jan.csv\<close> and
  \<open>archive/jan.csv\<close> to itself. Every put of the handler uses this key.
\<close>

theorem destination_key:
  "(\<not> sublist ''raw/'' k \<longrightarrow> processed_key_of k = k)
   \<and> (\<not> sublist ''raw/'' (p @ ''raw'') \<longrightarrow>
        processed_key_of (p @ ''raw/'' @ s) = p @ ''processed/'' @ s)
   \<and> processed_key_of ''raw/2024/jan.csv'' = ''processed/2024/jan.csv''
   \<and> processed_key_of ''archive/jan.csv'' = ''archive/jan.csv''
   \<and> (lambda_handler e (r0 # rs) = (res, puts) \<longrightarrow>
        (\<forall>q\<in>set puts. Key q = processed_key_of (unquote_plus e (object_key r0))))"
proof -
  have a: "\<not> sublist ''raw/'' k \<longrightarrow> processed_key_of k = k"
    by (simp add: processed_key_of_def replace_first_absent)
  have b: "\<not> sublist ''raw/'' (p @ ''raw'') \<longrightarrow>
        processed_key_of (p @ ''raw/'' @ s) = p @ ''processed/'' @ s"
    using replace_first_occurrence [of "''raw/''" p "''processed/''" s]
    by (simp add: processed_key_of_def)
  have c: "processed_key_of ''raw/2024/jan.csv'' = ''processed/2024/jan.csv''" by code_simp
  have d: "processed_key_of ''archive/jan.csv'' = ''archive/jan.csv''" by code_simp
  have e: "lambda_handler e (r0 # rs) = (res, puts) \<longrightarrow>
        (\<forall>q\<in>set puts. Key q = processed_key_of (unquote_plus e (object_key r0)))"
    by (auto simp: lambda_handler_def write_output_def Let_def
           split: list.splits sum.splits if_splits option.splits)
  from a b c d e show ?thesis by blast
qed

theorem destination_key_witness:
  "\<not> sublist ''raw/'' ''archive/jan.csv''
   \<and> processed_key_of ''archive/jan.csv'' = ''archive/jan.csv''
   \<and> \<not> sublist ''raw/'' (''data/'' @ ''raw'')
   \<and> processed_key_of (''data/'' @ ''raw/'' @ ''raw/x.csv'') = ''data/'' @ ''processed/'' @ ''raw/x.csv''
   \<and> lambda_handler (sample_env ''Status,Date'') sample_event =
        (Inr \<lparr>statusCode = 200, body = ''Kept 0 of 0 rows -> processed/2024/jan.csv''\<rparr>,
         [\<lparr>Bucket = ''orders'', Key = ''processed/2024/jan.csv'',
           Body = ''Status,Date'' @ [CHR 0x0D, CHR 0x0A],
           ContentType = ''text/csv; charset=utf-8''\<rparr>])
   \<and> ''processed/2024/jan.csv''
       = processed_key_of (unquote_plus (sample_env ''Status,Date'') ''raw/2024/jan.csv'')"
proof -
  have h1: "\<not> sublist ''raw/'' ''archive/jan.csv''" by code_simp
  have h2: "\<not> sublist ''raw/'' (''data/'' @ ''raw'')" by code_simp
  have h3: "lambda_handler (sample_env ''Status,Date'')
              (\<lparr>bucket_name = ''orders'', object_key = ''raw/2024/jan.csv''\<rparr> # []) =
        (Inr \<lparr>statusCode = 200, body = ''Kept 0 of 0 rows -> processed/2024/jan.csv''\<rparr>,
         [\<lparr>Bucket = ''orders'', Key = ''processed/2024/jan.csv'',
           Body = ''Status,Date'' @ [CHR 0x0D, CHR 0x0A],
           ContentType = ''text/csv; charset=utf-8''\<rparr>])" by code_simp
  from destination_key [of "''archive/jan.csv''" "''data/''" "''raw/x.csv''"
      "sample_env ''Status,Date''" "\<lparr>bucket_name = ''orders'', object_key = ''raw/2024/jan.csv''\<rparr>" "[]"
      "Inr \<lparr>statusCode = 200, body = ''Kept 0 of 0 rows -> processed/2024/jan.csv''\<rparr>"
      "[\<lparr>Bucket = ''orders'', Key = ''processed/2024/jan.csv'',
           Body = ''Status,Date'' @ [CHR 0x0D, CHR 0x0A],
           ContentType = ''text/csv; charset=utf-8''\<rparr>]"] h1 h2 h3
  show ?thesis by (simp add: sample_event_def)
qed

section \<open>Fatal and trivial inputs\<close>

lemma split_acc_Nil: "split_acc s cur = [] \<longleftrightarrow> s = [] \<and> cur = []"
  by (induction s arbitrary: cur) (auto split: list.splits)

lemma splitlines_Nil: "splitlines s = [] \<longleftrightarrow> s = []"
  by (simp add: splitlines_def split_acc_Nil)

text \<open>
  Claim C5. When the header row has been read and the status column or the date column
  does not resolve, the invocation fails with a KeyError and puts nothing. The failure
  does not depend on the records after the header: no row is looked at.
\<close>

theorem missing_column_fatal:
  assumes "get_text e (bucket_name r0) (unquote_plus e (object_key r0)) = Inr text"
      and "csv_reader (splitlines text) = Inr fieldnames # recs"
      and "find_status_key (header_map fieldnames) = None
           \<or> find_date_key (header_map fieldnames) = None"
  shows "lambda_handler e (r0 # rs) = (Inl KeyError, [])
       \<and> (\<forall>recs'. filter_rows e fieldnames recs' = Inl KeyError)"
proof -
  from assms(2) have ne: "splitlines text \<noteq> []"
    by (auto simp: csv_reader_def parse_reset_def)
  from assms(3) have fr: "filter_rows e fieldnames recs' = Inl KeyError" for recs'
    by (auto simp: filter_rows_def falsy_def)
  from assms(1,2) ne fr show ?thesis
    by (simp add: lambda_handler_def Let_def)
qed

theorem missing_column_fatal_witness:
  "csv_reader (splitlines (''Order Status,Amount'' @ LF @ ''shipped,12'' @ LF @ ''x,y,z'' @ LF))
     = [Inr [''Order Status'', ''Amount''], Inr [''shipped'', ''12''], Inr [''x'', ''y'', ''z'']]
   \<and> find_date_key (header_map [''Order Status'', ''Amount'']) = None
   \<and> lambda_handler (sample_env (''Order Status,Amount'' @ LF @ ''shipped,12'' @ LF @ ''x,y,z'' @ LF))
        sample_event = (Inl KeyError, [])"
proof -
  let ?text = "''Order Status,Amount'' @ LF @ ''shipped,12'' @ LF @ ''x,y,z'' @ LF"
  let ?e = "sample_env ?text"
  let ?r0 = "\<lparr>bucket_name = ''orders'', object_key = ''raw/2024/jan.csv''\<rparr>"
  have h1: "get_text ?e (bucket_name ?r0) (unquote_plus ?e (object_key ?r0)) = Inr ?text"
    by (simp add: sample_env_def)
  have h2: "csv_reader (splitlines ?text)
     = Inr [''Order Status'', ''Amount''] # [Inr [''shipped'', ''12''], Inr [''x'', ''y'', ''z'']]"
    by code_simp
  have h3: "find_date_key (header_map [''Order Status'', ''Amount'']) = None" by code_simp
  from missing_column_fatal [OF h1 h2 disjI2 [OF h3], of "[]"] h2 h3
  show ?thesis by (simp add: sample_event_def)
qed

text \<open>
  Claim C6. When the fetched object decodes to no lines, which is the case of the empty
  text only, the handler returns the success response \<open>Empty file\<close> and puts nothing.
\<close>

theorem no_lines_no_output:
  assumes "get_text e (bucket_name r0) (unquote_plus e (object_key r0)) = Inr text"
      and "splitlines text = []"
  shows "lambda_handler e (r0 # rs) = (Inr \<lparr>statusCode = 200, body = ''Empty file''\<rparr>, [])
       \<and> text = []"
  using assms by (simp add: lambda_handler_def Let_def splitlines_Nil)

theorem no_lines_no_output_witness:
  "splitlines [] = []
   \<and> lambda_handler (sample_env []) sample_event
       = (Inr \<lparr>statusCode = 200, body = ''Empty file''\<rparr>, [])"
proof -
  let ?e = "sample_env []"
  let ?r0 = "\<lparr>bucket_name = ''orders'', object_key = ''raw/2024/jan.csv''\<rparr>"
  have h1: "get_text ?e (bucket_name ?r0) (unquote_plus ?e (object_key ?r0)) = Inr []"
    by (simp add: sample_env_def)
  have h2: "splitlines [] = []" by code_simp
  from no_lines_no_output [OF h1 h2, of "[]"] h2 show ?thesis by (simp add: sample_event_def)
qed

section \<open>Header-only input\<close>

lemma handler_success:
  assumes "lambda_handler e records = (Inr resp, puts)"
  shows "(resp = \<lparr>statusCode = 200, body = ''Empty file''\<rparr> \<and> puts = [])
       \<or> (\<exists>r0 rs text fn recs st hdr out. records = r0 # rs
            \<and> get_text e (bucket_name r0) (unquote_plus e (object_key r0)) = Inr text
            \<and> csv_reader (splitlines text) = Inr fn # recs
            \<and> filter_rows e fn recs = Inr st
            \<and> writeheader fn = Inr hdr \<and> writerows fn (kept_rows st) = Inr out
            \<and> resp = \<lparr>statusCode = 200, body = summary (length (kept_rows st)) (total st)
                       (processed_key_of (unquote_plus e (object_key r0)))\<rparr>
            \<and> puts = [\<lparr>Bucket = bucket_name r0,
                         Key = processed_key_of (unquote_plus e (object_key r0)),
                         Body = hdr @ out, ContentType = ''text/csv; charset=utf-8''\<rparr>])"
  using assms
  by (auto simp: lambda_handler_def write_output_def Let_def
           split: list.splits sum.splits if_splits option.splits)

lemma filter_rows_counts:
  assumes "filter_rows e fn recs = Inr st"
  shows "total st = length (kept_rows st) + filtered_out st \<and> total st = length (dict_rows fn recs)"
proof -
  from assms obtain c sk dk where
    "row_loop c sk dk (dict_rows fn recs) \<lparr>kept_rows = [], total = 0, filtered_out = 0\<rparr> = Inr st"
    by (auto simp: filter_rows_def Let_def split: if_splits sum.splits)
  from row_loop_result [OF this] obtain rs where rs: "dict_rows fn recs = map Inr rs"
    "kept_rows st = filter (retained c sk dk) rs" "total st = length rs"
    "filtered_out st = length (filter (\<lambda>r. \<not> retained c sk dk r) rs)" by auto
  have "length (filter (retained c sk dk) rs) + length (filter (\<lambda>r. \<not> retained c sk dk r) rs)
        = length rs" by (rule sum_length_filter_compl)
  with rs show ?thesis by simp
qed

lemma fold_update_dom:
  "fst ` set (fold (\<lambda>(k, v) d. AList.update k v d) kvs d0) = fst ` set kvs \<union> fst ` set d0"
proof (induction kvs arbitrary: d0)
  case Nil
  then show ?case by simp
next
  case (Cons kv kvs)
  obtain k v where kv: "kv = (k, v)" by (cases kv)
  have "fst ` set (fold (\<lambda>(k, v) d. AList.update k v d) kvs (AList.update k v d0))
          = fst ` set kvs \<union> fst ` set (AList.update k v d0)"
    by (rule Cons.IH)
  then show ?case by (simp add: kv dom_update insert_commute)
qed

lemma fold_update_map_of:
  "map_of (fold (\<lambda>(k, v) d. AList.update k v d) kvs d0) = map_of d0 ++ map_of (rev kvs)"
  by (induction kvs arbitrary: d0) (auto simp: update_conv' fun_eq_iff map_add_def split: option.splits)

lemma dict_of_dom: "fst ` set (dict_of kvs) = fst ` set kvs"
  by (simp add: dict_of_def fold_update_dom)

lemma dict_of_map_of: "map_of (dict_of kvs) = map_of (rev kvs)"
  by (simp add: dict_of_def fold_update_map_of)

lemma map_of_functional:
  "\<forall>(k, v)\<in>set kvs. v = f k \<Longrightarrow> k \<in> fst ` set kvs \<Longrightarrow> map_of kvs k = Some (f k)"
  by (induction kvs) auto

lemma dict_to_list_header:
  "dict_to_list fn \<lparr>cells = dict_of (zip fn (map Some fn)), rest = None\<rparr> = Inr fn"
proof -
  let ?kvs = "zip fn (map Some fn)"
  have fst: "fst ` set ?kvs = set fn"
    by (metis length_map map_fst_zip set_map)
  have keys: "\<not> list_ex (\<lambda>k. k \<notin> set fn) (map fst (dict_of ?kvs))"
    using dict_of_dom [of ?kvs] fst by (auto simp: list_ex_iff)
  have fun': "\<forall>(k, v)\<in>set (rev ?kvs). v = Some k"
    by (auto simp: set_zip)
  have "map_of (dict_of ?kvs) key = Some (Some key)" if "key \<in> set fn" for key
    using map_of_functional [OF fun', of key] that fst by (simp add: dict_of_map_of)
  then have "map (\<lambda>key. case map_of (dict_of ?kvs) key of Some (Some v) \<Rightarrow> v | _ \<Rightarrow> []) fn = fn"
    by (simp add: map_idI)
  with keys show ?thesis by (simp add: dict_to_list_def)
qed

lemma writeheader_eq: "writeheader fn = Inr (writerow fn)"
  by (simp add: writeheader_def dict_to_list_header)

lemma reader_rows_one:
  "reader_rows r [l] = x # xs \<Longrightarrow> xs = []"
  by (auto simp: parse_reset_def split: sum.splits if_splits)

lemma csv_reader_one: "csv_reader [l] = x # xs \<Longrightarrow> xs = []"
  unfolding csv_reader_def by (rule reader_rows_one)

lemma str_nat_0: "str_nat 0 = ''0''"
  by code_simp

lemma dict_rows_Nil [simp]: "dict_rows fn [] = []"
  by (simp add: dict_rows_def)

text \<open>
  Claim C10. When the object is exactly one line, a header row whose status and date
  columns resolve, the reader yields no data row; the handler puts one object whose body
  is the header record alone, written as one CSV line, and returns the success response
  with the summary \<open>Kept 0 of 0 rows\<close> followed by the destination key. The clock is
  assumed to allow the cutoff and the put to succeed.
\<close>

theorem header_only_input:
  assumes "get_text e (bucket_name r0) (unquote_plus e (object_key r0)) = Inr text"
      and "splitlines text = [l]"
      and "csv_reader [l] = Inr fieldnames # recs"
      and "find_status_key (header_map fieldnames) = Some sk"
      and "find_date_key (header_map fieldnames) = Some dk"
      and "sub_days (now e) 30 = Inr cutoff"
      and "put_object e \<lparr>Bucket = bucket_name r0,
             Key = processed_key_of (unquote_plus e (object_key r0)),
             Body = writerow fieldnames, ContentType = ''text/csv; charset=utf-8''\<rparr> = None"
  shows "lambda_handler e (r0 # rs) =
          (Inr \<lparr>statusCode = 200,
                body = ''Kept 0 of 0 rows -> '' @ processed_key_of (unquote_plus e (object_key r0))\<rparr>,
           [\<lparr>Bucket = bucket_name r0,
             Key = processed_key_of (unquote_plus e (object_key r0)),
             Body = writerow fieldnames, ContentType = ''text/csv; charset=utf-8''\<rparr>])"
proof -
  from assms(3) have recs: "recs = []" by (rule csv_reader_one)
  have fr: "filter_rows e fieldnames recs = Inr \<lparr>kept_rows = [], total = 0, filtered_out = 0\<rparr>"
    using filter_rows_resolved [OF assms(4,5,6), of recs] recs by simp
  show ?thesis
    using assms(1,2,3,7) fr
    by (simp add: lambda_handler_def write_output_def writeheader_eq summary_def str_nat_0
          Let_def)
qed

theorem header_only_input_witness:
  "splitlines ''Status,Order Date'' = [''Status,Order Date'']
   \<and> csv_reader [''Status,Order Date''] = [Inr [''Status'', ''Order Date'']]
   \<and> find_status_key (header_map [''Status'', ''Order Date'']) = Some ''Status''
   \<and> find_date_key (header_map [''Status'', ''Order Date'']) = Some ''Order Date''
   \<and> lambda_handler (sample_env ''Status,Order Date'') sample_event =
       (Inr \<lparr>statusCode = 200, body = ''Kept 0 of 0 rows -> processed/2024/jan.csv''\<rparr>,
        [\<lparr>Bucket = ''orders'', Key = ''processed/2024/jan.csv'',
          Body = ''Status,Order Date'' @ [CHR 0x0D, CHR 0x0A],
          ContentType = ''text/csv; charset=utf-8''\<rparr>])"
proof -
  let ?e = "sample_env ''Status,Order Date''"
  let ?r0 = "\<lparr>bucket_name = ''orders'', object_key = ''raw/2024/jan.csv''\<rparr>"
  have h1: "get_text ?e (bucket_name ?r0) (unquote_plus ?e (object_key ?r0)) = Inr ''Status,Order Date''"
    by (simp add: sample_env_def)
  have h2: "splitlines ''Status,Order Date'' = [''Status,Order Date'']" by code_simp
  have h3: "csv_reader [''Status,Order Date''] = Inr [''Status'', ''Order Date''] # []" by code_simp
  have h4: "find_status_key (header_map [''Status'', ''Order Date'']) = Some ''Status''" by code_simp
  have h5: "find_date_key (header_map [''Status'', ''Order Date'']) = Some ''Order Date''" by code_simp
  have h6: "sub_days (now ?e) 30 = Inr (midnight 2024 1 31)" by code_simp
  have h7: "put_object ?e \<lparr>Bucket = bucket_name ?r0,
             Key = processed_key_of (unquote_plus ?e (object_key ?r0)),
             Body = writerow [''Status'', ''Order Date''], ContentType = ''text/csv; charset=utf-8''\<rparr> = None"
    by (simp add: sample_env_def)
  have k: "processed_key_of ''raw/2024/jan.csv'' = ''processed/2024/jan.csv''" by code_simp
  have w: "writerow [''Status'', ''Order Date''] = ''Status,Order Date'' @ [CHR 0x0D, CHR 0x0A]" by code_simp
  from header_only_input [OF h1 h2 h3 h4 h5 h6 h7, of "[]"] h2 h3 h4 h5 k w
  show ?thesis by (simp add: sample_event_def sample_env_def)
qed


section \<open>Rows with an unparseable date\<close>

lemma row_loop_total:
  "\<forall>x\<in>set rows. \<not> isl x \<Longrightarrow> \<exists>st. row_loop c sk dk rows st0 = Inr st"
proof (induction rows arbitrary: st0)
  case Nil
  then show ?case by simp
next
  case (Cons x rows)
  then obtain r where "x = Inr r" by (cases x) auto
  with Cons show ?case by simp
qed

lemma dict_rows_no_error: "\<forall>x\<in>set recs. \<not> isl x \<Longrightarrow> \<forall>x\<in>set (dict_rows fn recs). \<not> isl x"
  by (auto simp: dict_rows_def isl_map_sum)



section \<open>The counters and the summary\<close>

lemma handler_summary:
  assumes "lambda_handler e records = (Inr resp, puts)"
  shows "body resp = ''Empty file''
       \<or> (\<exists>fn recs st key. filter_rows e fn recs = Inr st
            \<and> body resp = summary (length (kept_rows st)) (total st) key)"
  using handler_success [OF assms]
proof (elim disjE exE conjE)
  assume "resp = \<lparr>statusCode = 200, body = ''Empty file''\<rparr>"
  then show ?thesis by simp
next
  fix r0 :: event_record and fn recs st
  assume f: "filter_rows e fn recs = Inr st"
    and r: "resp = \<lparr>statusCode = 200, body = summary (length (kept_rows st)) (total st)
                       (processed_key_of (unquote_plus e (object_key r0)))\<rparr>"
  from r have "body resp = summary (length (kept_rows st)) (total st)
      (processed_key_of (unquote_plus e (object_key r0)))" by simp
  with f show ?thesis by (intro disjI2 exI conjI)
qed

text \<open>
  Claim C9. After the row loop the counters satisfy total = kept + filtered out, where
  total is the number of rows the DictReader yielded, so kept is at most total; the loop
  does finish when the columns resolve, the cutoff is representable and the reader raises
  nothing. Every success response other than \<open>Empty file\<close> carries a summary
  \<open>Kept k of t rows -> key\<close> with k at most t.
\<close>

theorem counters_add_up:
  "(filter_rows e fieldnames recs = Inr st \<longrightarrow>
      total st = length (kept_rows st) + filtered_out st
      \<and> total st = length (dict_rows fieldnames recs)
      \<and> length (kept_rows st) \<le> total st)
   \<and> (find_status_key (header_map fieldnames) = Some sk
        \<and> find_date_key (header_map fieldnames) = Some dk
        \<and> sub_days (now e) 30 = Inr cutoff \<and> (\<forall>x\<in>set recs. \<not> isl x)
      \<longrightarrow> (\<exists>st'. filter_rows e fieldnames recs = Inr st'))
   \<and> (lambda_handler e records = (Inr resp, puts) \<longrightarrow>
        body resp = ''Empty file''
        \<or> (\<exists>kept tot key. kept \<le> tot
              \<and> body resp = ''Kept '' @ str_nat kept @ '' of '' @ str_nat tot @ '' rows -> '' @ key))"
proof -
  have a: "filter_rows e fieldnames recs = Inr st \<longrightarrow>
      total st = length (kept_rows st) + filtered_out st
      \<and> total st = length (dict_rows fieldnames recs)
      \<and> length (kept_rows st) \<le> total st"
    using filter_rows_counts [of e fieldnames recs st] by auto
  have b: "find_status_key (header_map fieldnames) = Some sk
        \<and> find_date_key (header_map fieldnames) = Some dk
        \<and> sub_days (now e) 30 = Inr cutoff \<and> (\<forall>x\<in>set recs. \<not> isl x)
      \<longrightarrow> (\<exists>st'. filter_rows e fieldnames recs = Inr st')"
  proof (intro impI, elim conjE)
    assume h: "find_status_key (header_map fieldnames) = Some sk"
      "find_date_key (header_map fieldnames) = Some dk" "sub_days (now e) 30 = Inr cutoff"
      "\<forall>x\<in>set recs. \<not> isl x"
    from dict_rows_no_error [OF h(4)] have "\<forall>x\<in>set (dict_rows fieldnames recs). \<not> isl x" .
    from row_loop_total [OF this] filter_rows_resolved [OF h(1,2,3)]
    show "\<exists>st'. filter_rows e fieldnames recs = Inr st'" by simp
  qed
  have c: "lambda_handler e records = (Inr resp, puts) \<longrightarrow>
        body resp = ''Empty file''
        \<or> (\<exists>kept tot key. kept \<le> tot
              \<and> body resp = ''Kept '' @ str_nat kept @ '' of '' @ str_nat tot @ '' rows -> '' @ key)"
  proof
    assume "lambda_handler e records = (Inr resp, puts)"
    from handler_summary [OF this] show "body resp = ''Empty file''
        \<or> (\<exists>kept tot key. kept \<le> tot
              \<and> body resp = ''Kept '' @ str_nat kept @ '' of '' @ str_nat tot @ '' rows -> '' @ key)"
    proof
      assume "body resp = ''Empty file''"
      then show ?thesis by simp
    next
      assume "\<exists>fn recs st key. filter_rows e fn recs = Inr st
            \<and> body resp = summary (length (kept_rows st)) (total st) key"
      then obtain fn recs st key where f: "filter_rows e fn recs = Inr st"
        and r: "body resp = summary (length (kept_rows st)) (total st) key"
        by (elim exE conjE)
      from filter_rows_counts [OF f] have "length (kept_rows st) \<le> total st" by simp
      with r show ?thesis unfolding summary_def by blast
    qed
  qed
  from a b c show ?thesis by blast
qed

theorem counters_add_up_witness:
  "filter_rows (sample_env sample_orders) [''Order_Status'', ''Order Date'', ''Note'']
      [Inr [''Pending'', ''2024-01-31'', ''x''], Inr [''pending'', ''2024-02-01'', ''y''], Inr [],
       Inr [''shipped'', ''soon'', ''z''], Inr [''shipped'', ''2020-01-01'']]
     = Inr \<lparr>kept_rows =
             [make_row [''Order_Status'', ''Order Date'', ''Note''] [''pending'', ''2024-02-01'', ''y''],
              make_row [''Order_Status'', ''Order Date'', ''Note''] [''shipped'', ''2020-01-01'']],
            total = 4, filtered_out = 2\<rparr>
   \<and> (4::nat) = 2 + 2
   \<and> fst (lambda_handler (sample_env sample_orders) sample_event)
       = Inr \<lparr>statusCode = 200, body = ''Kept 2 of 4 rows -> processed/2024/jan.csv''\<rparr>
   \<and> (\<exists>kept tot key. kept \<le> tot \<and>
         ''Kept 2 of 4 rows -> processed/2024/jan.csv''
           = ''Kept '' @ str_nat kept @ '' of '' @ str_nat tot @ '' rows -> '' @ key)"
proof -
  let ?e = "sample_env sample_orders"
  let ?fn = "[''Order_Status'', ''Order Date'', ''Note'']"
  let ?recs = "[Inr [''Pending'', ''2024-01-31'', ''x''], Inr [''pending'', ''2024-02-01'', ''y''],
       Inr [], Inr [''shipped'', ''soon'', ''z''], Inr [''shipped'', ''2020-01-01'']]"
  let ?st = "\<lparr>kept_rows = [make_row ?fn [''pending'', ''2024-02-01'', ''y''],
              make_row ?fn [''shipped'', ''2020-01-01'']], total = 4, filtered_out = 2\<rparr>"
  let ?resp = "\<lparr>statusCode = 200, body = ''Kept 2 of 4 rows -> processed/2024/jan.csv''\<rparr>"
  have h1: "filter_rows ?e ?fn ?recs = Inr ?st" by code_simp
  have h2: "fst (lambda_handler ?e sample_event) = Inr ?resp" by code_simp
  then have h3: "lambda_handler ?e sample_event = (Inr ?resp, snd (lambda_handler ?e sample_event))"
    by (metis prod.collapse)
  note t = counters_add_up [of ?e ?fn ?recs ?st "''Order_Status''" "''Order Date''"
      "midnight 2024 1 31" sample_event ?resp "snd (lambda_handler ?e sample_event)"]
  from t h1 have a: "total ?st = length (kept_rows ?st) + filtered_out ?st" by blast
  from t h3 have b: "body ?resp = ''Empty file''
        \<or> (\<exists>kept tot key. kept \<le> tot
              \<and> body ?resp = ''Kept '' @ str_nat kept @ '' of '' @ str_nat tot @ '' rows -> '' @ key)"
    by blast
  from a b h1 h2 show ?thesis by simp
qed

section \<open>Header resolution\<close>

lemma first_candidate_two:
  "first_candidate hm [a, b] =
     (case map_of hm a of Some h \<Rightarrow> Some h | None \<Rightarrow> map_of hm b)"
  by (simp split: option.splits)

lemma find_date_key_two:
  "find_date_key hm =
     (case map_of hm ''orderdate'' of Some h \<Rightarrow> Some h | None \<Rightarrow> map_of hm ''date'')"
  by (simp add: find_date_key_def remove_char_def split: option.splits)

lemma header_map_present:
  assumes "h \<in> set fs"
  shows "\<exists>h'. map_of (header_map fs) (normalize_header h) = Some h' \<and> h' \<in> set fs
           \<and> normalize_header h' = normalize_header h"
proof -
  let ?hs = "filter (\<lambda>x. normalize_header x = normalize_header h) fs"
  from assms have ne: "?hs \<noteq> []" by (auto simp: filter_empty_conv)
  then have "map_of (header_map fs) (normalize_header h) = Some (last ?hs)"
    by (simp add: map_of_header_map split: list.splits)
  moreover from ne have "last ?hs \<in> set ?hs" by (rule last_in_set)
  ultimately show ?thesis by auto
qed

lemma normalize_examples:
  "normalize_header ''Status'' = ''status''"
  "normalize_header ''STATUS'' = ''status''"
  "normalize_header ''order_status'' = ''orderstatus''"
  "normalize_header ''OrderStatus'' = ''orderstatus''"
  by code_simp+

text \<open>
  Claim C2, as amended. A raw header is normalized by trimming surrounding whitespace,
  lower-casing, and removing every space and underscore. The header map sends a
  normalized name to the last header that normalizes to it. The status column is the
  entry for \<open>status\<close> if there is one and else the entry for \<open>orderstatus\<close>; the date
  column is the entry for \<open>orderdate\<close> if there is one and else the entry for \<open>date\<close>.
  A header row containing \<open>Status\<close>, \<open>STATUS\<close>, \<open>order_status\<close> or \<open>OrderStatus\<close>
  has a status column.
\<close>

theorem header_resolution:
  "normalize_header h = remove_char (CHR ''_'') (remove_char (CHR '' '') (lower (strip h)))
   \<and> map_of (header_map fs) n =
       (case filter (\<lambda>x. normalize_header x = n) fs of [] \<Rightarrow> None | hs \<Rightarrow> Some (last hs))
   \<and> find_status_key hm =
       (case map_of hm ''status'' of Some x \<Rightarrow> Some x | None \<Rightarrow> map_of hm ''orderstatus'')
   \<and> find_date_key hm =
       (case map_of hm ''orderdate'' of Some x \<Rightarrow> Some x | None \<Rightarrow> map_of hm ''date'')
   \<and> (h \<in> set fs \<and> h \<in> set [''Status'', ''STATUS'', ''order_status'', ''OrderStatus'']
        \<longrightarrow> (\<exists>h'. find_status_key (header_map fs) = Some h' \<and> h' \<in> set fs
               \<and> normalize_header h' \<in> {''status'', ''orderstatus''}))"
proof -
  have a: "normalize_header h = remove_char (CHR ''_'') (remove_char (CHR '' '') (lower (strip h)))"
    by (simp add: normalize_header_def)
  have b: "map_of (header_map fs) n =
       (case filter (\<lambda>x. normalize_header x = n) fs of [] \<Rightarrow> None | hs \<Rightarrow> Some (last hs))"
    by (rule map_of_header_map)
  have c: "find_status_key hm =
       (case map_of hm ''status'' of Some x \<Rightarrow> Some x | None \<Rightarrow> map_of hm ''orderstatus'')"
    unfolding find_status_key_def by (rule first_candidate_two)
  have d: "find_date_key hm =
       (case map_of hm ''orderdate'' of Some x \<Rightarrow> Some x | None \<Rightarrow> map_of hm ''date'')"
    by (rule find_date_key_two)
  have e: "\<exists>h'. find_status_key (header_map fs) = Some h' \<and> h' \<in> set fs
               \<and> normalize_header h' \<in> {''status'', ''orderstatus''}"
    if "h \<in> set fs" and "h \<in> set [''Status'', ''STATUS'', ''order_status'', ''OrderStatus'']"
  proof -
    from that(2) have n: "normalize_header h = ''status'' \<or> normalize_header h = ''orderstatus''"
      using normalize_examples by auto
    from header_map_present [OF that(1)] obtain x where
      x: "map_of (header_map fs) (normalize_header h) = Some x" by blast
    show ?thesis
    proof (cases "map_of (header_map fs) ''status''")
      case (Some y)
      then have "find_status_key (header_map fs) = Some y"
        by (simp add: find_status_key_def)
      with header_map_normalized [OF Some] show ?thesis by simp
    next
      case None
      with n x have o: "map_of (header_map fs) ''orderstatus'' = Some x" by auto
      with None have "find_status_key (header_map fs) = Some x"
        by (simp add: find_status_key_def)
      with header_map_normalized [OF o] show ?thesis by simp
    qed
  qed
  from a b c d e show ?thesis by blast
qed

theorem header_resolution_witness:
  "''order_status'' \<in> set [''Order Date'', ''order_status'', ''Status'', ''STATUS '']
   \<and> find_status_key (header_map [''Order Date'', ''order_status'', ''Status'', ''STATUS ''])
       = Some ''STATUS ''
   \<and> find_date_key (header_map [''Order Date'', ''order_status'', ''Status'', ''STATUS ''])
       = Some ''Order Date''
   \<and> (\<exists>h'. find_status_key (header_map [''Order Date'', ''order_status'', ''Status'', ''STATUS ''])
               = Some h'
         \<and> h' \<in> set [''Order Date'', ''order_status'', ''Status'', ''STATUS '']
         \<and> normalize_header h' \<in> {''status'', ''orderstatus''})"
proof -
  let ?fs = "[''Order Date'', ''order_status'', ''Status'', ''STATUS '']"
  have h1: "''order_status'' \<in> set ?fs" by simp
  have h2: "''order_status'' \<in> set [''Status'', ''STATUS'', ''order_status'', ''OrderStatus'']"
    by simp
  have h3: "find_status_key (header_map ?fs) = Some ''STATUS ''" by code_simp
  have h4: "find_date_key (header_map ?fs) = Some ''Order Date''" by code_simp
  from header_resolution [of "''order_status''" ?fs "''status''" "header_map ?fs"] h1 h2
  have "\<exists>h'. find_status_key (header_map ?fs) = Some h' \<and> h' \<in> set ?fs
         \<and> normalize_header h' \<in> {''status'', ''orderstatus''}" by blast
  with h1 h3 h4 show ?thesis by blast
qed

text \<open>
  The claim as stated leaves the trimming out. A header with a leading tab resolves in
  the code and would not under lower-casing and removal of spaces and underscores alone.
\<close>

theorem header_trim_counterexample:
  "normalize_header (CHR 0x09 # ''Status'') = ''status''
   \<and> spec_normalize (CHR 0x09 # ''Status'') = CHR 0x09 # ''status''
   \<and> find_status_key (header_map [CHR 0x09 # ''Status'', ''Date'']) = Some (CHR 0x09 # ''Status'')
   \<and> find_status_key (spec_header_map [CHR 0x09 # ''Status'', ''Date'']) = None
   \<and> fst (lambda_handler (sample_env (CHR 0x09 # ''Status,Date'')) sample_event)
       = Inr \<lparr>statusCode = 200, body = ''Kept 0 of 0 rows -> processed/2024/jan.csv''\<rparr>"
  by code_simp

section \<open>Reading back what the writer wrote\<close>

lemma add_char_fits:
  "fits (cur @ [c]) \<Longrightarrow>
     parse_add_char \<lparr>state = s, rec_fields = done, cur_field = cur\<rparr> c
       = Inr \<lparr>state = s, rec_fields = done, cur_field = cur @ [c]\<rparr>"
  by (simp add: parse_add_char_def fits_def)

lemma in_field_plain:
  "\<forall>c\<in>set f. plain c \<Longrightarrow> fits (cur @ f) \<Longrightarrow>
     process_chars \<lparr>state = IN_FIELD, rec_fields = done, cur_field = cur\<rparr> (f @ zs)
       = process_chars \<lparr>state = IN_FIELD, rec_fields = done, cur_field = cur @ f\<rparr> zs"
proof (induction f arbitrary: cur)
  case Nil
  then show ?case by simp
next
  case (Cons c f)
  from Cons.prems(2) have f1: "fits (cur @ [c])" and f2: "fits ((cur @ [c]) @ f)"
    by (simp_all add: fits_def)
  from Cons.prems(1) have p: "plain c" and ps: "\<forall>c\<in>set f. plain c" by simp_all
  from p f1 have "parse_process_char \<lparr>state = IN_FIELD, rec_fields = done, cur_field = cur\<rparr> (Some c)
      = Inr \<lparr>state = IN_FIELD, rec_fields = done, cur_field = cur @ [c]\<rparr>"
    by (simp add: plain_def add_char_fits)
  with Cons.IH [OF ps f2] show ?case by simp
qed

lemma in_quoted_esc:
  "fits (cur @ f) \<Longrightarrow>
     process_chars \<lparr>state = IN_QUOTED_FIELD, rec_fields = done, cur_field = cur\<rparr> (esc f @ zs)
       = process_chars \<lparr>state = IN_QUOTED_FIELD, rec_fields = done, cur_field = cur @ f\<rparr> zs"
proof (induction f arbitrary: cur)
  case Nil
  then show ?case by (simp add: esc_def)
next
  case (Cons c f)
  from Cons.prems have f1: "fits (cur @ [c])" and f2: "fits ((cur @ [c]) @ f)"
    by (simp_all add: fits_def)
  have e: "esc (c # f) = (if c = CHR 0x22 then [c, c] else [c]) @ esc f"
    by (simp add: esc_def)
  show ?case
  proof (cases "c = CHR 0x22")
    case True
    have "process_chars \<lparr>state = IN_QUOTED_FIELD, rec_fields = done, cur_field = cur\<rparr>
            (c # c # esc f @ zs)
          = process_chars \<lparr>state = IN_QUOTED_FIELD, rec_fields = done, cur_field = cur @ [c]\<rparr>
            (esc f @ zs)"
      using True f1 by (simp add: add_char_fits set_state_def)
    with Cons.IH [OF f2] True e show ?thesis by simp
  next
    case False
    have "process_chars \<lparr>state = IN_QUOTED_FIELD, rec_fields = done, cur_field = cur\<rparr>
            (c # esc f @ zs)
          = process_chars \<lparr>state = IN_QUOTED_FIELD, rec_fields = done, cur_field = cur @ [c]\<rparr>
            (esc f @ zs)"
      using False f1 by (simp add: add_char_fits)
    with Cons.IH [OF f2] False e show ?thesis by simp
  qed
qed

lemma quote_field_esc:
  "quote_field f = (if list_ex needs_quote f then CHR 0x22 # esc f @ [CHR 0x22] else f)"
  by (simp add: quote_field_def esc_def)

lemma unquoted_plain: "\<not> list_ex needs_quote f \<Longrightarrow> \<forall>c\<in>set f. plain c"
  by (auto simp: list_ex_iff needs_quote_def plain_def is_crlf_def)

lemma start_quote:
  "s = START_RECORD \<or> s = START_FIELD \<Longrightarrow>
     parse_process_char \<lparr>state = s, rec_fields = done, cur_field = []\<rparr> (Some (CHR 0x22))
       = Inr \<lparr>state = IN_QUOTED_FIELD, rec_fields = done, cur_field = []\<rparr>"
  by (auto simp: start_field_def is_crlf_def)

lemma start_comma:
  "s = START_RECORD \<or> s = START_FIELD \<Longrightarrow>
     parse_process_char \<lparr>state = s, rec_fields = done, cur_field = []\<rparr> (Some (CHR '',''))
       = Inr \<lparr>state = START_FIELD, rec_fields = done @ [[]], cur_field = []\<rparr>"
  by (auto simp: start_field_def is_crlf_def parse_save_field_def)

lemma start_plain:
  "s = START_RECORD \<or> s = START_FIELD \<Longrightarrow> plain c \<Longrightarrow> fits [c] \<Longrightarrow>
     parse_process_char \<lparr>state = s, rec_fields = done, cur_field = []\<rparr> (Some c)
       = Inr \<lparr>state = IN_FIELD, rec_fields = done, cur_field = [c]\<rparr>"
  using add_char_fits [of "[]" c s "done"]
  by (auto simp: start_field_def plain_def set_state_def)

lemma quoted_body:
  assumes "s = START_RECORD \<or> s = START_FIELD" and "fits f"
  shows "process_chars \<lparr>state = s, rec_fields = done, cur_field = []\<rparr>
           (CHR 0x22 # esc f @ CHR 0x22 # zs)
         = process_chars \<lparr>state = QUOTE_IN_QUOTED_FIELD, rec_fields = done, cur_field = f\<rparr> zs"
proof -
  have "process_chars \<lparr>state = s, rec_fields = done, cur_field = []\<rparr>
           (CHR 0x22 # esc f @ CHR 0x22 # zs)
        = process_chars \<lparr>state = IN_QUOTED_FIELD, rec_fields = done, cur_field = []\<rparr>
           (esc f @ CHR 0x22 # zs)"
    using start_quote [OF assms(1)] by simp
  also have "\<dots> = process_chars \<lparr>state = IN_QUOTED_FIELD, rec_fields = done, cur_field = f\<rparr>
           (CHR 0x22 # zs)"
    using in_quoted_esc [of "[]" f "done" "CHR 0x22 # zs"] assms(2) by simp
  also have "\<dots> = process_chars \<lparr>state = QUOTE_IN_QUOTED_FIELD, rec_fields = done, cur_field = f\<rparr> zs"
    by simp
  finally show ?thesis .
qed

lemma plain_body:
  assumes "s = START_RECORD \<or> s = START_FIELD" and "fits (c # f)" and "\<forall>x\<in>set (c # f). plain x"
  shows "process_chars \<lparr>state = s, rec_fields = done, cur_field = []\<rparr> (c # f @ zs)
         = process_chars \<lparr>state = IN_FIELD, rec_fields = done, cur_field = c # f\<rparr> zs"
proof -
  from assms(2) have f1: "fits [c]" by (simp add: fits_def)
  from assms(3) have p: "plain c" and ps: "\<forall>x\<in>set f. plain x" by simp_all
  have "process_chars \<lparr>state = s, rec_fields = done, cur_field = []\<rparr> (c # f @ zs)
        = process_chars \<lparr>state = IN_FIELD, rec_fields = done, cur_field = [c]\<rparr> (f @ zs)"
    using start_plain [OF assms(1) p f1] by simp
  also have "\<dots> = process_chars \<lparr>state = IN_FIELD, rec_fields = done, cur_field = [c] @ f\<rparr> zs"
    using assms(2) by (intro in_field_plain [OF ps]) simp
  finally show ?thesis by simp
qed

lemma field_then_comma:
  assumes s: "s = START_RECORD \<or> s = START_FIELD" and f: "fits f"
  shows "process_chars \<lparr>state = s, rec_fields = done, cur_field = []\<rparr>
           (quote_field f @ CHR '','' # zs)
         = process_chars \<lparr>state = START_FIELD, rec_fields = done @ [f], cur_field = []\<rparr> zs"
proof (cases "list_ex needs_quote f")
  case True
  then have "quote_field f @ CHR '','' # zs = CHR 0x22 # esc f @ CHR 0x22 # CHR '','' # zs"
    by (simp add: quote_field_esc)
  with quoted_body [OF s f, of "done" "CHR '','' # zs"] show ?thesis
    by (simp add: parse_save_field_def)
next
  case False
  then have q: "quote_field f = f" by (simp add: quote_field_esc)
  show ?thesis
  proof (cases f)
    case Nil
    with q start_comma [OF s, of "done"] show ?thesis by simp
  next
    case (Cons c f')
    from unquoted_plain [OF False] Cons have "\<forall>x\<in>set (c # f'). plain x" by simp
    from plain_body [OF s _ this, of "done" "CHR '','' # zs"] f Cons q show ?thesis
      by (simp add: parse_save_field_def is_crlf_def)
  qed
qed

lemma field_then_eol:
  assumes s: "s = START_FIELD \<or> (s = START_RECORD \<and> f \<noteq> [])" and f: "fits f"
  shows "process_line \<lparr>state = s, rec_fields = done, cur_field = []\<rparr> (quote_field f)
         = Inr \<lparr>state = START_RECORD, rec_fields = done @ [f], cur_field = []\<rparr>"
proof -
  from s have s': "s = START_RECORD \<or> s = START_FIELD" by auto
  show ?thesis
  proof (cases "list_ex needs_quote f")
    case True
    then have "quote_field f = CHR 0x22 # esc f @ CHR 0x22 # []" by (simp add: quote_field_esc)
    with quoted_body [OF s' f, of "done" "[]"] show ?thesis
      by (simp add: process_line_def parse_save_field_def)
  next
    case False
    then have q: "quote_field f = f" by (simp add: quote_field_esc)
    show ?thesis
    proof (cases f)
      case Nil
      with s q show ?thesis
        by (simp add: process_line_def start_field_def parse_save_field_def)
    next
      case (Cons c f')
      from unquoted_plain [OF False] Cons have "\<forall>x\<in>set (c # f'). plain x" by simp
      from plain_body [OF s' _ this, of "done" "[]"] f Cons q show ?thesis
        by (simp add: process_line_def parse_save_field_def)
    qed
  qed
qed

lemma empty_field_line:
  "process_line \<lparr>state = START_RECORD, rec_fields = done, cur_field = []\<rparr> [CHR 0x22, CHR 0x22]
     = Inr \<lparr>state = START_RECORD, rec_fields = done @ [[]], cur_field = []\<rparr>"
  by (simp add: process_line_def start_field_def is_crlf_def parse_save_field_def)

lemma process_line_comma:
  assumes "s = START_RECORD \<or> s = START_FIELD" and "fits f"
  shows "process_line \<lparr>state = s, rec_fields = done, cur_field = []\<rparr>
           (quote_field f @ CHR '','' # zs)
         = process_line \<lparr>state = START_FIELD, rec_fields = done @ [f], cur_field = []\<rparr> zs"
  unfolding process_line_def by (simp only: field_then_comma [OF assms])

lemma quote_field_Nil_iff: "quote_field f = [] \<longleftrightarrow> f = []"
  by (cases f) (simp_all add: quote_field_def)

lemma fields_line:
  assumes "\<forall>x\<in>set (f # fs). fits x"
      and "s = START_FIELD \<or> (s = START_RECORD \<and> join_fields (map quote_field (f # fs)) \<noteq> [])"
  shows "process_line \<lparr>state = s, rec_fields = done, cur_field = []\<rparr>
           (join_fields (map quote_field (f # fs)))
         = Inr \<lparr>state = START_RECORD, rec_fields = done @ f # fs, cur_field = []\<rparr>"
  using assms
proof (induction fs arbitrary: f s "done")
  case Nil
  from Nil.prems(2) have "s = START_FIELD \<or> (s = START_RECORD \<and> f \<noteq> [])"
    by (auto simp: quote_field_Nil_iff)
  from field_then_eol [OF this] Nil.prems(1) show ?case by simp
next
  case (Cons g fs)
  from Cons.prems(2) have s: "s = START_RECORD \<or> s = START_FIELD" by auto
  from Cons.prems(1) have f: "fits f" and r: "\<forall>x\<in>set (g # fs). fits x" by simp_all
  have "process_line \<lparr>state = s, rec_fields = done, cur_field = []\<rparr>
           (join_fields (map quote_field (f # g # fs)))
        = process_line \<lparr>state = START_FIELD, rec_fields = done @ [f], cur_field = []\<rparr>
           (join_fields (map quote_field (g # fs)))"
    using process_line_comma [OF s f] by simp
  also have "\<dots> = Inr \<lparr>state = START_RECORD, rec_fields = (done @ [f]) @ g # fs, cur_field = []\<rparr>"
    by (rule Cons.IH [OF r]) simp
  finally show ?case by simp
qed

lemma join_fields_Nil:
  "join_fields (map quote_field fs) = [] \<Longrightarrow> fs \<noteq> [] \<Longrightarrow> fs = [[]]"
proof (cases fs)
  case Nil
  then show "fs \<noteq> [] \<Longrightarrow> fs = [[]]" by simp
next
  case (Cons f gs)
  assume "join_fields (map quote_field fs) = []"
  with Cons show "fs = [[]]" by (cases gs) (simp_all add: quote_field_Nil_iff)
qed

lemma read_join_record:
  assumes "fs \<noteq> []" and "\<forall>x\<in>set fs. fits x"
  shows "process_line parse_reset (join_record fs)
         = Inr \<lparr>state = START_RECORD, rec_fields = fs, cur_field = []\<rparr>"
proof (cases "join_fields (map quote_field fs) = []")
  case True
  with assms(1) have "fs = [[]]" by (rule join_fields_Nil [rotated])
  with True empty_field_line [of "[]"] show ?thesis
    by (simp add: join_record_def parse_reset_def)
next
  case False
  from assms(1) obtain f gs where fs: "fs = f # gs" by (cases fs) auto
  from fields_line [of f gs START_RECORD "[]"] assms(2) False fs show ?thesis
    by (simp add: join_record_def parse_reset_def)
qed

lemma reader_rows_written:
  "\<forall>fs\<in>set recs. fs \<noteq> [] \<and> (\<forall>x\<in>set fs. fits x) \<Longrightarrow>
     reader_rows parse_reset (map join_record recs) = map Inr recs"
proof (induction recs)
  case Nil
  then show ?case by (simp add: parse_reset_def)
next
  case (Cons fs recs)
  then have "process_line parse_reset (join_record fs)
         = Inr \<lparr>state = START_RECORD, rec_fields = fs, cur_field = []\<rparr>"
    by (intro read_join_record) simp_all
  with Cons show ?case by simp
qed

lemma split_acc_line:
  "\<forall>c\<in>set l. \<not> is_linebreak c \<Longrightarrow> split_acc (l @ s) cur = split_acc s (rev l @ cur)"
  by (induction l arbitrary: cur) simp_all

lemma is_linebreak_CR: "is_linebreak (CHR 0x0D)"
  by (simp add: is_linebreak_def)

lemma split_acc_crlf:
  "\<forall>c\<in>set l. \<not> is_linebreak c \<Longrightarrow>
     split_acc (l @ CHR 0x0D # CHR 0x0A # s) [] = l # split_acc s []"
  by (simp add: split_acc_line is_linebreak_CR)

lemma not_linebreak_quote_comma: "\<not> is_linebreak (CHR 0x22)" "\<not> is_linebreak (CHR '','')"
  by (simp_all add: is_linebreak_def)

lemma quote_field_chars: "set (quote_field f) \<subseteq> insert (CHR 0x22) (set f)"
  by (auto simp: quote_field_def split: if_splits)

lemma join_fields_chars:
  "set (join_fields xs) \<subseteq> insert (CHR '','') (\<Union> (set ` set xs))"
  by (induction xs rule: join_fields.induct) auto

lemma join_record_chars:
  "set (join_record fs) \<subseteq> {CHR 0x22, CHR '',''} \<union> \<Union> (set ` set fs)"
proof -
  have "set (join_fields (map quote_field fs)) \<subseteq> {CHR 0x22, CHR '',''} \<union> \<Union> (set ` set fs)"
    using join_fields_chars [of "map quote_field fs"] quote_field_chars by fastforce
  then show ?thesis by (auto simp: join_record_def Let_def)
qed

lemma join_record_no_linebreak:
  assumes "\<forall>f\<in>set fs. \<forall>c\<in>set f. \<not> is_linebreak c"
  shows "\<forall>c\<in>set (join_record fs). \<not> is_linebreak c"
  using join_record_chars [of fs] assms not_linebreak_quote_comma by auto

lemma splitlines_written:
  "\<forall>fs\<in>set recs. \<forall>f\<in>set fs. \<forall>c\<in>set f. \<not> is_linebreak c \<Longrightarrow>
     splitlines (concat (map writerow recs)) = map join_record recs"
  unfolding splitlines_def
proof (induction recs)
  case Nil
  then show ?case by simp
next
  case (Cons fs recs)
  then have "\<forall>c\<in>set (join_record fs). \<not> is_linebreak c"
    by (intro join_record_no_linebreak) simp
  from split_acc_crlf [OF this] Cons show ?case by (simp add: writerow_def)
qed

lemma split_acc_no_linebreak:
  "\<forall>c\<in>set cur. \<not> is_linebreak c \<Longrightarrow> \<forall>l\<in>set (split_acc s cur). \<forall>c\<in>set l. \<not> is_linebreak c"
proof (induction s cur rule: split_acc.induct)
  case (1 cur)
  then show ?case by simp
next
  case (2 c cs cur)
  have nil: "\<forall>c\<in>set ([] :: string). \<not> is_linebreak c" by simp
  from "2.prems" have cur: "\<forall>c\<in>set (rev cur). \<not> is_linebreak c" by simp
  show ?case
  proof (cases "is_linebreak c")
    case False
    with "2.prems" have "\<forall>x\<in>set (c # cur). \<not> is_linebreak x" by simp
    from "2.IH"(4) [OF False this] have
      "\<forall>l\<in>set (split_acc cs (c # cur)). \<forall>c\<in>set l. \<not> is_linebreak c" .
    moreover from False have "split_acc (c # cs) cur = split_acc cs (c # cur)" by simp
    ultimately show ?thesis by (simp only:)
  next
    case True
    show ?thesis
    proof (cases cs)
      case Nil
      with True have "split_acc (c # cs) cur = [rev cur]" by simp
      with cur show ?thesis by simp
    next
      case (Cons d ds)
      show ?thesis
      proof (cases "c = CHR 0x0D \<and> d = CHR 0x0A")
        case crlf: True
        from "2.IH"(2) [OF True Cons crlf nil] have
          r: "\<forall>l\<in>set (split_acc ds []). \<forall>c\<in>set l. \<not> is_linebreak c" .
        from True Cons crlf have "split_acc (c # cs) cur = rev cur # split_acc ds []" by simp
        with cur r show ?thesis by simp
      next
        case other: False
        from "2.IH"(3) [OF True Cons other nil] have
          r: "\<forall>l\<in>set (split_acc cs []). \<forall>c\<in>set l. \<not> is_linebreak c" .
        from True Cons other have "split_acc (c # cs) cur = rev cur # split_acc cs []" by auto
        with cur r show ?thesis by simp
      qed
    qed
  qed
qed

lemma splitlines_no_linebreak: "\<forall>l\<in>set (splitlines s). \<forall>c\<in>set l. \<not> is_linebreak c"
  unfolding splitlines_def by (rule split_acc_no_linebreak) simp

lemma good_Nil [simp]: "good []"
  by (simp add: good_def fits_def field_limit_def)

lemma add_char_inv:
  assumes "parse_add_char r x = Inr r'" and "reader_inv r" and "\<not> is_linebreak x"
  shows "reader_inv r'" and "state r' = state r"
  using assms
  by (auto simp: parse_add_char_def reader_inv_def good_def fits_def split: if_splits)

lemma save_field_inv: "reader_inv r \<Longrightarrow> reader_inv ((parse_save_field r)\<lparr>state := s\<rparr>)"
  by (simp add: reader_inv_def parse_save_field_def)

lemma state_update_inv: "reader_inv r \<Longrightarrow> reader_inv (r\<lparr>state := s\<rparr>)"
  by (simp add: reader_inv_def)

lemma set_state_inv:
  assumes "set_state s (parse_add_char r x) = Inr r'" and "reader_inv r" and "\<not> is_linebreak x"
  shows "reader_inv r'"
proof -
  from assms(1) obtain r1 where r1: "parse_add_char r x = Inr r1" and r': "r' = r1\<lparr>state := s\<rparr>"
    by (auto simp: set_state_def split: sum.splits)
  from add_char_inv(1) [OF r1 assms(2,3)] r' show ?thesis by (simp add: state_update_inv)
qed

lemma start_field_inv:
  assumes "start_field r c = Inr r'" and "reader_inv r" and "\<forall>x. c = Some x \<longrightarrow> \<not> is_linebreak x"
  shows "reader_inv r'"
  using assms
  by (auto simp: start_field_def save_field_inv state_update_inv
           split: option.splits if_splits intro: set_state_inv)

lemma process_char_inv:
  assumes "parse_process_char r c = Inr r'" and "reader_inv r"
      and "\<forall>x. c = Some x \<longrightarrow> \<not> is_linebreak x"
  shows "reader_inv r'"
proof (cases "state r")
  case START_RECORD
  with assms show ?thesis
    by (auto simp: state_update_inv split: option.splits if_splits intro: start_field_inv)
next
  case START_FIELD
  with assms show ?thesis by (auto intro: start_field_inv)
next
  case IN_FIELD
  with assms show ?thesis
    by (auto simp: save_field_inv split: option.splits if_splits intro: add_char_inv(1))
next
  case IN_QUOTED_FIELD
  with assms show ?thesis
    by (auto simp: state_update_inv split: option.splits if_splits intro: add_char_inv(1))
next
  case QUOTE_IN_QUOTED_FIELD
  with assms show ?thesis
    by (auto simp: save_field_inv split: option.splits if_splits intro: set_state_inv)
next
  case EAT_CRNL
  with assms show ?thesis
    by (auto simp: state_update_inv split: option.splits if_splits)
qed

lemma process_chars_inv:
  "process_chars r l = Inr r' \<Longrightarrow> reader_inv r \<Longrightarrow> \<forall>c\<in>set l. \<not> is_linebreak c \<Longrightarrow> reader_inv r'"
proof (induction l arbitrary: r)
  case Nil
  then show ?case by simp
next
  case (Cons c l)
  from Cons.prems(1) obtain r1 where r1: "parse_process_char r (Some c) = Inr r1"
    and rest: "process_chars r1 l = Inr r'" by (auto split: sum.splits)
  from process_char_inv [OF r1 Cons.prems(2)] Cons.prems(3) have "reader_inv r1" by simp
  from Cons.IH [OF rest this] Cons.prems(3) show ?case by simp
qed

lemma process_line_inv:
  assumes "process_line r l = Inr r'" and "reader_inv r" and "\<forall>c\<in>set l. \<not> is_linebreak c"
  shows "reader_inv r'"
proof -
  from assms(1) obtain r1 where r1: "process_chars r l = Inr r1"
    and e: "parse_process_char r1 None = Inr r'"
    by (auto simp: process_line_def split: sum.splits)
  from process_chars_inv [OF r1 assms(2,3)] have "reader_inv r1" .
  from process_char_inv [OF e this] show ?thesis by simp
qed

lemma reader_inv_reset: "reader_inv parse_reset"
  by (simp add: reader_inv_def parse_reset_def)

lemma reader_rows_good:
  "reader_inv r \<Longrightarrow> \<forall>l\<in>set lines. \<forall>c\<in>set l. \<not> is_linebreak c \<Longrightarrow>
     Inr rec \<in> set (reader_rows r lines) \<Longrightarrow> \<forall>f\<in>set rec. good f"
proof (induction lines arbitrary: r)
  case Nil
  then show ?case
    by (auto simp: reader_inv_def parse_save_field_def split: if_splits)
next
  case (Cons l lines)
  show ?case
  proof (cases "process_line r l")
    case (Inl e)
    with Cons.prems(3) show ?thesis by simp
  next
    case (Inr r1)
    from process_line_inv [OF Inr Cons.prems(1)] Cons.prems(2) have i1: "reader_inv r1" by simp
    from Cons.prems(2) have ls: "\<forall>l\<in>set lines. \<forall>c\<in>set l. \<not> is_linebreak c" by simp
    show ?thesis
    proof (cases "state r1 = START_RECORD")
      case True
      with Inr Cons.prems(3) have "rec = rec_fields r1 \<or> Inr rec \<in> set (reader_rows parse_reset lines)"
        by auto
      then show ?thesis
      proof
        assume "rec = rec_fields r1"
        with i1 show ?thesis by (simp add: reader_inv_def)
      next
        assume "Inr rec \<in> set (reader_rows parse_reset lines)"
        from Cons.IH [OF reader_inv_reset ls this] show ?thesis .
      qed
    next
      case False
      with Inr Cons.prems(3) have "Inr rec \<in> set (reader_rows r1 lines)" by simp
      from Cons.IH [OF i1 ls this] show ?thesis .
    qed
  qed
qed

lemma csv_reader_good:
  "Inr rec \<in> set (csv_reader (splitlines text)) \<Longrightarrow> \<forall>f\<in>set rec. good f"
  unfolding csv_reader_def
  by (rule reader_rows_good [OF reader_inv_reset splitlines_no_linebreak])

lemma written_read_back:
  assumes "\<forall>fs\<in>set recs. fs \<noteq> [] \<and> (\<forall>f\<in>set fs. good f)"
  shows "csv_reader (splitlines (concat (map writerow recs))) = map Inr recs"
proof -
  from assms have "\<forall>fs\<in>set recs. \<forall>f\<in>set fs. \<forall>c\<in>set f. \<not> is_linebreak c"
    by (simp add: good_def)
  then have "splitlines (concat (map writerow recs)) = map join_record recs"
    by (rule splitlines_written)
  moreover from assms have "\<forall>fs\<in>set recs. fs \<noteq> [] \<and> (\<forall>x\<in>set fs. fits x)"
    by (simp add: good_def)
  then have "reader_rows parse_reset (map join_record recs) = map Inr recs"
    by (rule reader_rows_written)
  ultimately show ?thesis by (simp add: csv_reader_def)
qed

section \<open>Output when every row is kept\<close>

lemma map_of_rev_distinct: "distinct (map fst kvs) \<Longrightarrow> map_of (rev kvs) = map_of kvs"
  by (subst map_of_inject_set) (simp_all add: rev_map [symmetric])

lemma dict_to_list_make_row:
  assumes "distinct fn" and "length rec = length fn"
  shows "dict_to_list fn (make_row fn rec) = Inr rec"
proof -
  let ?kvs = "zip fn (map Some rec)"
  from assms(2) have fst: "map fst ?kvs = fn" by simp
  then have dom: "fst ` set ?kvs = set fn" by (metis set_map)
  have keys: "\<not> list_ex (\<lambda>k. k \<notin> set fn) (map fst (dict_of ?kvs))"
    using dict_of_dom [of ?kvs] dom by (auto simp: list_ex_iff)
  have m: "map_of (dict_of ?kvs) = map_of ?kvs"
    using assms(1) fst by (simp add: dict_of_map_of map_of_rev_distinct)
  have "map (\<lambda>key. case map_of ?kvs key of Some (Some v) \<Rightarrow> v | _ \<Rightarrow> []) fn = rec"
  proof (rule nth_equalityI)
    show "length (map (\<lambda>key. case map_of ?kvs key of Some (Some v) \<Rightarrow> v | _ \<Rightarrow> []) fn)
            = length rec" using assms(2) by simp
  next
    fix i assume "i < length (map (\<lambda>key. case map_of ?kvs key of Some (Some v) \<Rightarrow> v | _ \<Rightarrow> []) fn)"
    then have i: "i < length fn" by simp
    with assms have "map_of ?kvs (fn ! i) = Some (map Some rec ! i)"
      by (intro map_of_zip_nth) simp_all
    with i assms(2) show
      "map (\<lambda>key. case map_of ?kvs key of Some (Some v) \<Rightarrow> v | _ \<Rightarrow> []) fn ! i = rec ! i"
      by simp
  qed
  with keys m assms(2) show ?thesis by (simp add: dict_to_list_def make_row_def)
qed

lemma writerows_make_row:
  assumes "distinct fn" and "\<forall>rec\<in>set recs. length rec = length fn"
  shows "writerows fn (map (make_row fn) recs) = Inr (concat (map writerow recs))"
  using assms(2) by (induction recs) (simp_all add: dict_to_list_make_row [OF assms(1)])

lemma dict_rows_map_Inr:
  "dict_rows fn (map Inr rws) = map Inr (map (make_row fn) (filter (\<lambda>rec. rec \<noteq> []) rws))"
  by (induction rws) (simp_all add: dict_rows_def)

text \<open>
  The round trip on rectangular input. When no data row is excluded, the header names are
  distinct and every non-empty record has exactly as many fields as the header, the
  handler puts one object whose body is the CSV serialization of the header record
  followed by the non-empty data records of the input, unchanged and in input order, and
  the summary counts all of them as kept. Read back with the same line splitting and the
  same reader, the body yields exactly that header and those records.
\<close>

theorem all_rows_kept_output:
  assumes "get_text e (bucket_name r0) (unquote_plus e (object_key r0)) = Inr text"
      and "csv_reader (splitlines text) = map Inr (fieldnames # rws)"
      and "distinct fieldnames"
      and "\<forall>rec\<in>set rws. rec = [] \<or> length rec = length fieldnames"
      and "find_status_key (header_map fieldnames) = Some sk"
      and "find_date_key (header_map fieldnames) = Some dk"
      and "sub_days (now e) 30 = Inr cutoff"
      and "\<forall>rec\<in>set rws. rec \<noteq> [] \<longrightarrow> retained cutoff sk dk (make_row fieldnames rec)"
      and "put_object e \<lparr>Bucket = bucket_name r0,
             Key = processed_key_of (unquote_plus e (object_key r0)),
             Body = concat (map writerow (fieldnames # filter (\<lambda>rec. rec \<noteq> []) rws)),
             ContentType = ''text/csv; charset=utf-8''\<rparr> = None"
  shows "lambda_handler e (r0 # rs) =
          (Inr \<lparr>statusCode = 200,
                body = summary (length (filter (\<lambda>rec. rec \<noteq> []) rws))
                         (length (filter (\<lambda>rec. rec \<noteq> []) rws))
                         (processed_key_of (unquote_plus e (object_key r0)))\<rparr>,
           [\<lparr>Bucket = bucket_name r0,
             Key = processed_key_of (unquote_plus e (object_key r0)),
             Body = concat (map writerow (fieldnames # filter (\<lambda>rec. rec \<noteq> []) rws)),
             ContentType = ''text/csv; charset=utf-8''\<rparr>])
       \<and> csv_reader (splitlines
             (concat (map writerow (fieldnames # filter (\<lambda>rec. rec \<noteq> []) rws))))
           = map Inr (fieldnames # filter (\<lambda>rec. rec \<noteq> []) rws)"
proof -
  let ?data = "filter (\<lambda>rec. rec \<noteq> []) rws"
  let ?rows = "map (make_row fieldnames) ?data"
  from assms(2) have ne: "splitlines text \<noteq> []"
    by (auto simp: csv_reader_def parse_reset_def)
  from assms(2) have rd: "csv_reader (splitlines text) = Inr fieldnames # map Inr rws" by simp
  from assms(7) have ok: "\<exists>st. filter_rows e fieldnames (map Inr rws) = Inr st"
    using filter_rows_resolved [OF assms(5,6,7), of "map Inr rws"]
      row_loop_total [of "dict_rows fieldnames (map Inr rws)" cutoff sk dk]
    by (simp add: dict_rows_map_Inr)
  then obtain st where st: "filter_rows e fieldnames (map Inr rws) = Inr st" ..
  from filter_rows_result [OF st assms(5,6,7)] obtain rws' where
    r: "dict_rows fieldnames (map Inr rws) = map Inr rws'"
    "kept_rows st = filter (retained cutoff sk dk) rws'" "total st = length rws'" by blast
  from r(1) have "map (Inr :: row \<Rightarrow> exn + row) ?rows = map Inr rws'"
    by (simp only: dict_rows_map_Inr)
  then have "rws' = ?rows" by (simp only: inj_map_eq_map [OF inj_Inr])
  moreover from assms(8) have "filter (retained cutoff sk dk) ?rows = ?rows"
    by (auto simp: filter_id_conv)
  ultimately have kept: "kept_rows st = ?rows" and tot: "total st = length ?data"
    using r(2,3) by simp_all
  from assms(4) have "\<forall>rec\<in>set ?data. length rec = length fieldnames" by auto
  from writerows_make_row [OF assms(3) this]
  have out: "writerows fieldnames (kept_rows st) = Inr (concat (map writerow ?data))"
    by (simp add: kept)
  have handler: "lambda_handler e (r0 # rs) =
          (Inr \<lparr>statusCode = 200,
                body = summary (length ?data) (length ?data)
                         (processed_key_of (unquote_plus e (object_key r0)))\<rparr>,
           [\<lparr>Bucket = bucket_name r0,
             Key = processed_key_of (unquote_plus e (object_key r0)),
             Body = concat (map writerow (fieldnames # ?data)),
             ContentType = ''text/csv; charset=utf-8''\<rparr>])"
    using assms(1,9) ne rd st out kept tot
    by (simp add: lambda_handler_def write_output_def writeheader_eq Let_def)
  have fields: "\<forall>f\<in>set rec. good f" if "rec \<in> set (fieldnames # rws)" for rec
  proof -
    from that assms(2) have "Inr rec \<in> set (csv_reader (splitlines text))" by auto
    then show ?thesis by (rule csv_reader_good)
  qed
  from assms(5) have "sk \<in> set fieldnames" by (rule status_key_member)
  then have "fieldnames \<noteq> []" by auto
  with fields have "\<forall>fs\<in>set (fieldnames # ?data). fs \<noteq> [] \<and> (\<forall>f\<in>set fs. good f)"
    by auto
  then have "csv_reader (splitlines (concat (map writerow (fieldnames # ?data))))
      = map Inr (fieldnames # ?data)"
    by (rule written_read_back)
  with handler show ?thesis by (simp only: simp_thms)
qed

theorem all_rows_kept_output_witness:
  "csv_reader (splitlines sample_kept)
     = [Inr [''Status'', ''Date''], Inr [''shipped'', ''2020-01-01''], Inr [],
        Inr [''pending'', ''2024-02-01'']]
   \<and> retained (midnight 2024 1 31) ''Status'' ''Date''
         (make_row [''Status'', ''Date''] [''shipped'', ''2020-01-01''])
   \<and> retained (midnight 2024 1 31) ''Status'' ''Date''
         (make_row [''Status'', ''Date''] [''pending'', ''2024-02-01''])
   \<and> lambda_handler (sample_env sample_kept) sample_event =
       (Inr \<lparr>statusCode = 200, body = ''Kept 2 of 2 rows -> processed/2024/jan.csv''\<rparr>,
        [\<lparr>Bucket = ''orders'', Key = ''processed/2024/jan.csv'',
          Body = ''Status,Date'' @ CRLF @ ''shipped,2020-01-01'' @ CRLF @
                 ''pending,2024-02-01'' @ CRLF,
          ContentType = ''text/csv; charset=utf-8''\<rparr>])
   \<and> csv_reader (splitlines (''Status,Date'' @ CRLF @ ''shipped,2020-01-01'' @ CRLF @
                 ''pending,2024-02-01'' @ CRLF))
     = [Inr [''Status'', ''Date''], Inr [''shipped'', ''2020-01-01''],
        Inr [''pending'', ''2024-02-01'']]"
proof -
  let ?e = "sample_env sample_kept"
  let ?r0 = "\<lparr>bucket_name = ''orders'', object_key = ''raw/2024/jan.csv''\<rparr>"
  let ?fn = "[''Status'', ''Date'']"
  let ?rws = "[[''shipped'', ''2020-01-01''], [], [''pending'', ''2024-02-01'']]"
  let ?c = "midnight 2024 1 31"
  have h1: "get_text ?e (bucket_name ?r0) (unquote_plus ?e (object_key ?r0)) = Inr sample_kept"
    by (simp add: sample_env_def)
  have rd: "csv_reader (splitlines sample_kept)
     = [Inr ?fn, Inr [''shipped'', ''2020-01-01''], Inr [], Inr [''pending'', ''2024-02-01'']]"
    by code_simp
  then have h2: "csv_reader (splitlines sample_kept) = map Inr (?fn # ?rws)" by simp
  have h3: "distinct ?fn" by simp
  have h4: "\<forall>rec\<in>set ?rws. rec = [] \<or> length rec = length ?fn" by simp
  have h5: "find_status_key (header_map ?fn) = Some ''Status''" by code_simp
  have h6: "find_date_key (header_map ?fn) = Some ''Date''" by code_simp
  have h7: "sub_days (now ?e) 30 = Inr ?c" by code_simp
  have k1: "retained ?c ''Status'' ''Date'' (make_row ?fn [''shipped'', ''2020-01-01''])"
    by code_simp
  have k2: "retained ?c ''Status'' ''Date'' (make_row ?fn [''pending'', ''2024-02-01''])"
    by code_simp
  from k1 k2 have h8: "\<forall>rec\<in>set ?rws. rec \<noteq> [] \<longrightarrow>
      retained ?c ''Status'' ''Date'' (make_row ?fn rec)" by simp
  have h9: "put_object ?e \<lparr>Bucket = bucket_name ?r0,
             Key = processed_key_of (unquote_plus ?e (object_key ?r0)),
             Body = concat (map writerow (?fn # filter (\<lambda>rec. rec \<noteq> []) ?rws)),
             ContentType = ''text/csv; charset=utf-8''\<rparr> = None"
    by (simp add: sample_env_def)
  have k: "processed_key_of ''raw/2024/jan.csv'' = ''processed/2024/jan.csv''" by code_simp
  have w: "concat (map writerow [?fn, [''shipped'', ''2020-01-01''], [''pending'', ''2024-02-01'']])
      = ''Status,Date'' @ CRLF @ ''shipped,2020-01-01'' @ CRLF @ ''pending,2024-02-01'' @ CRLF"
    by code_simp
  have s: "summary 2 2 ''processed/2024/jan.csv'' = ''Kept 2 of 2 rows -> processed/2024/jan.csv''"
    by code_simp
  then have s: "summary (Suc (Suc 0)) (Suc (Suc 0)) ''processed/2024/jan.csv''
      = ''Kept 2 of 2 rows -> processed/2024/jan.csv''"
    by (simp add: numeral_2_eq_2)
  have u: "unquote_plus ?e ''raw/2024/jan.csv'' = ''raw/2024/jan.csv''"
    by (simp add: sample_env_def)
  from conjunct1 [OF all_rows_kept_output [OF h1 h2 h3 h4 h5 h6 h7 h8 h9, of "[]"]]
  have "lambda_handler ?e [?r0] =
       (Inr \<lparr>statusCode = 200, body = ''Kept 2 of 2 rows -> processed/2024/jan.csv''\<rparr>,
        [\<lparr>Bucket = ''orders'', Key = ''processed/2024/jan.csv'',
          Body = ''Status,Date'' @ CRLF @ ''shipped,2020-01-01'' @ CRLF @
                 ''pending,2024-02-01'' @ CRLF,
          ContentType = ''text/csv; charset=utf-8''\<rparr>])"
    using k w s u by simp
  moreover from conjunct2 [OF all_rows_kept_output [OF h1 h2 h3 h4 h5 h6 h7 h8 h9]]
  have "csv_reader (splitlines (''Status,Date'' @ CRLF @ ''shipped,2020-01-01'' @ CRLF @
                 ''pending,2024-02-01'' @ CRLF))
     = [Inr [''Status'', ''Date''], Inr [''shipped'', ''2020-01-01''],
        Inr [''pending'', ''2024-02-01'']]"
    using w by simp
  ultimately show ?thesis using rd k1 k2 by (simp add: sample_event_def)
qed

text \<open>
  Claim C8. An input none of whose rows matches the exclusion criteria must come out with
  the same header and the same rows in the same order. The handler breaks this on a kept
  row that has more fields than the header: the row loop appends the row to the kept rows
  and counts nothing as filtered out, then the writer raises a ValueError on the row's
  surplus fields, the invocation fails and no object is put. The same surplus row does no
  harm when the filter drops it, and a row shorter than the header is written, extended
  with an empty field.
\<close>

theorem surplus_field_aborts:
  "csv_reader (splitlines sample_surplus)
     = [Inr [''Status'', ''Date''], Inr [''shipped'', ''2024-02-15'', ''extra'']]
   \<and> filter_rows (sample_env sample_surplus) [''Status'', ''Date'']
         [Inr [''shipped'', ''2024-02-15'', ''extra'']]
     = Inr \<lparr>kept_rows = [make_row [''Status'', ''Date''] [''shipped'', ''2024-02-15'', ''extra'']],
            total = 1, filtered_out = 0\<rparr>
   \<and> lambda_handler (sample_env sample_surplus) sample_event = (Inl ValueError, [])
   \<and> csv_reader (splitlines sample_surplus_dropped)
     = [Inr [''Status'', ''Date''], Inr [''pending'', ''2020-01-01'', ''extra'']]
   \<and> lambda_handler (sample_env sample_surplus_dropped) sample_event
     = (Inr \<lparr>statusCode = 200, body = ''Kept 0 of 1 rows -> processed/2024/jan.csv''\<rparr>,
        [\<lparr>Bucket = ''orders'', Key = ''processed/2024/jan.csv'',
          Body = ''Status,Date'' @ CRLF, ContentType = ''text/csv; charset=utf-8''\<rparr>])
   \<and> csv_reader (splitlines sample_short)
     = [Inr [''Status'', ''Date'', ''Note''], Inr [''shipped'', ''2024-02-15'']]
   \<and> map Body (snd (lambda_handler (sample_env sample_short) sample_event))
     = [''Status,Date,Note'' @ CRLF @ ''shipped,2024-02-15,'' @ CRLF]"
  by code_simp

end
